theory Spec2Isabelle
  imports Complex_Main "HOL-Library.AList" "HOL-Library.Product_Lexorder"
begin

section \<open>Video anomaly detection: tracker, activity classifier, anomaly rules\<close>

text \<open>
  Shallow embedding of \<^verbatim>\<open>detector.py\<close> (class ObjectTracker),
  \<^verbatim>\<open>activity_classifier.py\<close> (class ActivityClassifier) and
  \<^verbatim>\<open>anomaly_detector.py\<close> (class AnomalyDetector).

  Conventions. Python floats and numpy float64 values are idealised as \<^typ>\<open>real\<close>
  (no rounding, no NaN, no infinities); Python ints are \<^typ>\<open>int\<close>, list
  positions produced by \<^verbatim>\<open>range\<close> and \<^verbatim>\<open>enumerate\<close> are \<^typ>\<open>nat\<close>.
  A dict is an association list in insertion order, with \<^const>\<open>AList.update\<close> for
  \<^verbatim>\<open>d[k] = v\<close>. A bounding box \<^verbatim>\<open>[x1, y1, x2, y2]\<close> is a 4-tuple. The wall clock
  \<^verbatim>\<open>time.time()\<close> is an argument \<open>now\<close> of each call that reads it: one reading
  per call of \<^verbatim>\<open>update\<close> and of \<^verbatim>\<open>detect\<close>.
\<close>

subsection \<open>Geometry (detector.py)\<close>

type_synonym point = "real \<times> real"
type_synonym bbox = "real \<times> real \<times> real \<times> real"

text \<open>\<^verbatim>\<open>_bbox_center\<close>, and the identical \<^verbatim>\<open>_get_center\<close> of the two other classes.\<close>

definition bbox_center :: "bbox \<Rightarrow> point" where
  "bbox_center b = (case b of (x1, y1, x2, y2) \<Rightarrow> ((x1 + x2) / 2, (y1 + y2) / 2))"

definition get_center :: "bbox \<Rightarrow> point" where
  "get_center b = (case b of (x1, y1, x2, y2) \<Rightarrow> ((x1 + x2) / 2, (y1 + y2) / 2))"

text \<open>\<^verbatim>\<open>_calculate_iou\<close>, lines 156-178.\<close>

definition calculate_iou :: "bbox \<Rightarrow> bbox \<Rightarrow> real" where
  "calculate_iou bbox1 bbox2 =
     (case bbox1 of (x1_1, y1_1, x2_1, y2_1) \<Rightarrow>
      case bbox2 of (x1_2, y1_2, x2_2, y2_2) \<Rightarrow>
        let x1_i = max x1_1 x1_2;
            y1_i = max y1_1 y1_2;
            x2_i = min x2_1 x2_2;
            y2_i = min y2_1 y2_2
        in if x2_i < x1_i \<or> y2_i < y1_i then 0
           else
             let intersection = (x2_i - x1_i) * (y2_i - y1_i);
                 area1 = (x2_1 - x1_1) * (y2_1 - y1_1);
                 area2 = (x2_2 - x1_2) * (y2_2 - y1_2);
                 union = area1 + area2 - intersection
             in if union > 0 then intersection / union else 0)"

text \<open>The boxes share no interior point: the intersection rectangle is empty or flat.\<close>

definition no_overlap :: "bbox \<Rightarrow> bbox \<Rightarrow> bool" where
  "no_overlap bbox1 bbox2 =
     (case bbox1 of (x1_1, y1_1, x2_1, y2_1) \<Rightarrow>
      case bbox2 of (x1_2, y1_2, x2_2, y2_2) \<Rightarrow>
        min x2_1 x2_2 \<le> max x1_1 x1_2 \<or> min y2_1 y2_2 \<le> max y1_1 y1_2)"

text \<open>A box with \<open>x1 < x2\<close> and \<open>y1 < y2\<close>.\<close>

definition positive_area :: "bbox \<Rightarrow> bool" where
  "positive_area b = (case b of (x1, y1, x2, y2) \<Rightarrow> x1 < x2 \<and> y1 < y2)"

subsection \<open>Tracks and the tracker state (detector.py)\<close>

record detection =
  bbox :: bbox
  confidence :: real
  class_id :: int

text \<open>
  A track dict has the keys of a detection that the tracker copies, and \<^verbatim>\<open>id\<close>
  (here \<open>track_id\<close>), \<^verbatim>\<open>history\<close>, \<^verbatim>\<open>age\<close>, \<^verbatim>\<open>hits\<close>,
  \<^verbatim>\<open>velocity\<close>, \<^verbatim>\<open>last_seen\<close>. The tracker sets all of them, so the
  default of \<^verbatim>\<open>track.get('velocity', ...)\<close> in the two other classes is never used.
\<close>

record track = detection +
  track_id :: int
  history :: "point list"
  age :: int
  hits :: int
  velocity :: point
  last_seen :: real

record tracker =
  tracks :: "(int \<times> track) list"
  next_id :: int
  max_history :: nat
  max_age :: int

text \<open>\<^verbatim>\<open>ObjectTracker.__init__\<close> with the default \<^verbatim>\<open>max_history = 30\<close>.\<close>

definition init_tracker :: tracker where
  "init_tracker = \<lparr>tracks = [], next_id = 1, max_history = 30, max_age = 30\<rparr>"

text \<open>\<^verbatim>\<open>deque(maxlen=n).append(x)\<close>: the oldest element is dropped when full.\<close>

definition deque_append :: "nat \<Rightarrow> 'a list \<Rightarrow> 'a \<Rightarrow> 'a list" where
  "deque_append n xs x = (let ys = xs @ [x] in drop (length ys - n) ys)"

text \<open>The dict built at lines 52-62 of \<^verbatim>\<open>_create_track\<close>.\<close>

definition new_track :: "real \<Rightarrow> nat \<Rightarrow> int \<Rightarrow> detection \<Rightarrow> track" where
  "new_track now cap tid det =
     \<lparr>bbox = bbox det, confidence = confidence det, class_id = class_id det,
      track_id = tid,
      history = deque_append cap [] (bbox_center (bbox det)),
      age = 0, hits = 1, velocity = (0, 0), last_seen = now\<rparr>"

text \<open>\<^verbatim>\<open>_create_track\<close>, lines 47-64; returns the new state and the id.\<close>

definition create_track :: "real \<Rightarrow> detection \<Rightarrow> tracker \<Rightarrow> tracker \<times> int" where
  "create_track now det s =
     (let tid = next_id s;
          s1 = s\<lparr>next_id := next_id s + 1\<rparr>
      in (s1\<lparr>tracks := AList.update tid (new_track now (max_history s1) tid det) (tracks s1)\<rparr>,
          tid))"

text \<open>\<^verbatim>\<open>_update_track\<close>, lines 114-130.\<close>

definition update_one :: "real \<Rightarrow> nat \<Rightarrow> detection \<Rightarrow> track \<Rightarrow> track" where
  "update_one now cap det trk =
     (let old_center = bbox_center (bbox trk);
          new_center = bbox_center (bbox det);
          vel = (fst new_center - fst old_center, snd new_center - snd old_center)
      in trk\<lparr>bbox := bbox det, confidence := confidence det,
             history := deque_append cap (history trk) new_center,
             age := 0, hits := hits trk + 1, velocity := vel, last_seen := now\<rparr>)"

definition update_track :: "real \<Rightarrow> int \<Rightarrow> detection \<Rightarrow> tracker \<Rightarrow> tracker" where
  "update_track now tid det s =
     s\<lparr>tracks := AList.map_entry tid (update_one now (max_history s) det) (tracks s)\<rparr>"

text \<open>
  \<^verbatim>\<open>_associate_detections\<close>, lines 66-112. The cost matrix is flattened row by
  row into triples \<open>(cost, det_idx, track_idx)\<close> and sorted; Python compares the
  tuples lexicographically, which is the order of \<^typ>\<open>real \<times> nat \<times> nat\<close> here.
\<close>

definition flat_costs :: "detection list \<Rightarrow> (int \<times> track) list \<Rightarrow> (real \<times> nat \<times> nat) list" where
  "flat_costs dets trks =
     concat (map (\<lambda>(i, det).
        map (\<lambda>(j, (tid, trk)). (1 - calculate_iou (bbox det) (bbox trk), i, j))
            (enumerate 0 trks))
        (enumerate 0 dets))"

text \<open>
  The greedy walk over the sorted triples, lines 95-102. Every index comes from
  \<^verbatim>\<open>range(len(...))\<close>, so the two list reads are in range.
\<close>

fun match_loop :: "real \<Rightarrow> detection list \<Rightarrow> int list \<Rightarrow> (real \<times> nat \<times> nat) list
    \<Rightarrow> tracker \<times> nat set \<times> nat set \<Rightarrow> tracker \<times> nat set \<times> nat set" where
  "match_loop now dets track_ids [] acc = acc"
| "match_loop now dets track_ids ((cost, det_idx, track_idx) # rest) (s, matched_tracks, matched_detections) =
     (if det_idx \<in> matched_detections \<or> track_idx \<in> matched_tracks
      then match_loop now dets track_ids rest (s, matched_tracks, matched_detections)
      else if cost < 0.7
      then match_loop now dets track_ids rest
             (update_track now (track_ids ! track_idx) (dets ! det_idx) s,
              insert track_idx matched_tracks, insert det_idx matched_detections)
      else match_loop now dets track_ids rest (s, matched_tracks, matched_detections))"

text \<open>Lines 105-107: new tracks for the detections left unmatched.\<close>

fun create_unmatched :: "real \<Rightarrow> nat set \<Rightarrow> (nat \<times> detection) list \<Rightarrow> tracker \<Rightarrow> tracker" where
  "create_unmatched now matched_detections [] s = s"
| "create_unmatched now matched_detections ((i, det) # rest) s =
     (if i \<notin> matched_detections
      then create_unmatched now matched_detections rest (fst (create_track now det s))
      else create_unmatched now matched_detections rest s)"

text \<open>Lines 110-112: the tracks left unmatched age by one.\<close>

fun age_unmatched :: "nat set \<Rightarrow> (nat \<times> int) list \<Rightarrow> tracker \<Rightarrow> tracker" where
  "age_unmatched matched_tracks [] s = s"
| "age_unmatched matched_tracks ((j, tid) # rest) s =
     (if j \<notin> matched_tracks
      then age_unmatched matched_tracks rest
             (s\<lparr>tracks := AList.map_entry tid (\<lambda>trk. trk\<lparr>age := age trk + 1\<rparr>) (tracks s)\<rparr>)
      else age_unmatched matched_tracks rest s)"

definition associate_detections :: "real \<Rightarrow> detection list \<Rightarrow> tracker \<Rightarrow> tracker" where
  "associate_detections now dets s =
     (if dets = []
      then s\<lparr>tracks := map (\<lambda>(tid, trk). (tid, trk\<lparr>age := age trk + 1\<rparr>)) (tracks s)\<rparr>
      else
        let track_ids = map fst (tracks s);
            sorted_costs = sort (flat_costs dets (tracks s))
        in case match_loop now dets track_ids sorted_costs (s, {}, {}) of
             (s1, matched_tracks, matched_detections) \<Rightarrow>
               age_unmatched matched_tracks (enumerate 0 track_ids)
                 (create_unmatched now matched_detections (enumerate 0 dets) s1))"

text \<open>\<^verbatim>\<open>_cleanup_tracks\<close>, lines 132-140, and \<^verbatim>\<open>_get_active_tracks\<close>, lines 142-148.\<close>

definition cleanup_tracks :: "tracker \<Rightarrow> tracker" where
  "cleanup_tracks s = s\<lparr>tracks := filter (\<lambda>(tid, trk). \<not> age trk > max_age s) (tracks s)\<rparr>"

definition get_active_tracks :: "tracker \<Rightarrow> track list" where
  "get_active_tracks s = map snd (filter (\<lambda>(tid, trk). hits trk \<ge> 3) (tracks s))"

text \<open>Lines 35-36: the first iteration creates one track per detection.\<close>

fun create_all :: "real \<Rightarrow> detection list \<Rightarrow> tracker \<Rightarrow> tracker" where
  "create_all now [] s = s"
| "create_all now (det # rest) s = create_all now rest (fst (create_track now det s))"

text \<open>\<^verbatim>\<open>ObjectTracker.update\<close>, lines 23-45: the new state and the returned list.\<close>

definition update :: "real \<Rightarrow> detection list \<Rightarrow> tracker \<Rightarrow> tracker \<times> track list" where
  "update now dets s =
     (let s1 = (if tracks s = [] then create_all now dets s
                else associate_detections now dets s);
          s2 = cleanup_tracks s1
      in (s2, get_active_tracks s2))"

text \<open>
  A run of the tracker: \<^verbatim>\<open>update\<close> called once per frame, each call with its clock
  reading and its detections, starting from a given state.
\<close>

fun run_tracker :: "(real \<times> detection list) list \<Rightarrow> tracker \<Rightarrow> tracker" where
  "run_tracker [] s = s"
| "run_tracker ((now, dets) # rest) s = run_tracker rest (fst (update now dets s))"

text \<open>
  The ids that a call made new: the keys of the track dict after the call that were
  not keys before it, in dict order. Over a run they are listed call after call.
\<close>

definition new_ids :: "tracker \<Rightarrow> tracker \<Rightarrow> int list" where
  "new_ids s s' = filter (\<lambda>k. k \<notin> set (map fst (tracks s))) (map fst (tracks s'))"

fun created_ids :: "(real \<times> detection list) list \<Rightarrow> tracker \<Rightarrow> int list" where
  "created_ids [] s = []"
| "created_ids ((now, dets) # rest) s =
     (let s' = fst (update now dets s) in new_ids s s' @ created_ids rest s')"

text \<open>
  The test of line 98 on a detection and a track: the cost \<open>1 - IoU\<close> is below 0.7.
\<close>

definition cost_accepted :: "detection \<Rightarrow> track \<Rightarrow> bool" where
  "cost_accepted det trk = (1 - calculate_iou (bbox det) (bbox trk) < 0.7)"

text \<open>
  The set \<^verbatim>\<open>matched_tracks\<close> of line 85 as the walk of lines 95-102 leaves it: the
  positions, in the track dict before the call, of the tracks that the call matched
  with a detection. No track is matched when the call takes the branch of line 33 or
  that of line 68.
\<close>

definition matched_tracks :: "real \<Rightarrow> detection list \<Rightarrow> tracker \<Rightarrow> nat set" where
  "matched_tracks now dets s =
     (if tracks s = [] \<or> dets = [] then {}
      else case match_loop now dets (map fst (tracks s)) (sort (flat_costs dets (tracks s)))
                  (s, {}, {}) of
             (s1, matched, matched_detections) \<Rightarrow> matched)"

text \<open>The hits of the track of id \<open>k\<close>, and 0 when there is no such track.\<close>

definition hits_of :: "tracker \<Rightarrow> int \<Rightarrow> int" where
  "hits_of s k = (case map_of (tracks s) k of None \<Rightarrow> 0 | Some t \<Rightarrow> hits t)"

text \<open>
  The call gave a detection to the track of id \<open>k\<close>: it created the track from a
  detection, or it matched the track with one. Over a run, \<open>calls_seen\<close> counts the
  calls that did.
\<close>

definition seen_in_call :: "int \<Rightarrow> real \<Rightarrow> detection list \<Rightarrow> tracker \<Rightarrow> bool" where
  "seen_in_call k now dets s =
     (k \<in> set (new_ids s (fst (update now dets s)))
      \<or> (\<exists>j \<in> matched_tracks now dets s. j < length (tracks s) \<and> fst (tracks s ! j) = k))"

fun calls_seen :: "int \<Rightarrow> (real \<times> detection list) list \<Rightarrow> tracker \<Rightarrow> int" where
  "calls_seen k [] s = 0"
| "calls_seen k ((now, dets) # rest) s =
     (if seen_in_call k now dets s then 1 else 0) + calls_seen k rest (fst (update now dets s))"

text \<open>
  Well-formed tracker states: the keys of the track dict are distinct, every key is
  below \<open>next_id\<close>, and \<open>max_age\<close> is not negative. All states of a run are so.
\<close>

definition tracker_ok :: "tracker \<Rightarrow> bool" where
  "tracker_ok s = (distinct (map fst (tracks s)) \<and> (\<forall>k \<in> set (map fst (tracks s)). k < next_id s)
      \<and> 0 \<le> max_age s)"

text \<open>Every track is stored under its own id.\<close>

definition ids_match :: "tracker \<Rightarrow> bool" where
  "ids_match s = (\<forall>p \<in> set (tracks s). track_id (snd p) = fst p)"

text \<open>
  What one call does to the track dict before the cleanup: the old entries keep their
  keys and gain at most one hit, and the new entries follow them with the next ids,
  one hit and age zero.
\<close>

definition grows :: "tracker \<Rightarrow> tracker \<Rightarrow> bool" where
  "grows s s1 = (\<exists>old new.
      tracks s1 = old @ new \<and> map fst old = map fst (tracks s)
      \<and> (\<forall>j < length old. hits (snd (old ! j)) = hits (snd (tracks s ! j))
                           \<or> hits (snd (old ! j)) = hits (snd (tracks s ! j)) + 1)
      \<and> map fst new = map (\<lambda>i. next_id s + int i) [0..<length new]
      \<and> next_id s1 = next_id s + int (length new)
      \<and> (\<forall>p \<in> set new. hits (snd p) = 1 \<and> age (snd p) = 0)
      \<and> max_age s1 = max_age s \<and> max_history s1 = max_history s)"

text \<open>A sample detection for the concrete runs below.\<close>

definition sample_detection :: detection where
  "sample_detection = \<lparr>bbox = (0, 0, 10, 10), confidence = 1, class_id = 0\<rparr>"

subsection \<open>Vector helpers (numpy, scipy)\<close>

text \<open>\<^verbatim>\<open>np.linalg.norm\<close> of a 2-vector and \<^verbatim>\<open>scipy.spatial.distance.euclidean\<close>.\<close>

definition linalg_norm :: "point \<Rightarrow> real" where
  "linalg_norm v = sqrt ((fst v)\<^sup>2 + (snd v)\<^sup>2)"

definition vec_sub :: "point \<Rightarrow> point \<Rightarrow> point" where
  "vec_sub a b = (fst a - fst b, snd a - snd b)"

definition euclidean :: "point \<Rightarrow> point \<Rightarrow> real" where
  "euclidean u v = linalg_norm (vec_sub u v)"

text \<open>\<^verbatim>\<open>np.arctan2(y, x)\<close>, in radians, and \<^verbatim>\<open>np.degrees\<close>.\<close>

definition arctan2 :: "real \<Rightarrow> real \<Rightarrow> real" where
  "arctan2 y x =
     (if x > 0 then arctan (y / x)
      else if x < 0 then (if y \<ge> 0 then arctan (y / x) + pi else arctan (y / x) - pi)
      else if y > 0 then pi / 2
      else if y < 0 then - pi / 2
      else 0)"

definition degrees :: "real \<Rightarrow> real" where
  "degrees r = r * 180 / pi"

subsection \<open>Activity classifier (activity\_classifier.py)\<close>

datatype activity = PARADO | CAMINHANDO | CORRENDO | INTERAGINDO | COMPORTAMENTO_ERRATICO

text \<open>The \<^verbatim>\<open>thresholds\<close> dict of \<^verbatim>\<open>ActivityClassifier.__init__\<close>.\<close>

definition stopped_speed :: real where "stopped_speed = 2"
definition walking_speed :: real where "walking_speed = 5"
definition running_speed :: real where "running_speed = 8"
definition interaction_distance :: real where "interaction_distance = 100"
definition direction_change :: real where "direction_change = 45"
definition erratic_changes :: nat where "erratic_changes = 3"

record classifier =
  activity_history :: "(int \<times> activity list) list"
  position_history :: "(int \<times> point list) list"
  history_size :: nat

definition init_classifier :: classifier where
  "init_classifier = \<lparr>activity_history = [], position_history = [], history_size = 30\<rparr>"

text \<open>\<^verbatim>\<open>_calculate_direction\<close>, lines 173-189; \<^verbatim>\<open>None\<close> is \<^const>\<open>None\<close>.\<close>

definition calculate_direction :: "point list \<Rightarrow> real option" where
  "calculate_direction positions =
     (if length positions < 2 then None
      else
        let start = hd positions;
            end = last positions;
            displacement = vec_sub end start
        in if linalg_norm displacement < 1 / 1000000 then None
           else Some (degrees (arctan2 (snd displacement) (fst displacement))))"

text \<open>\<^verbatim>\<open>_angle_difference\<close>, lines 191-197.\<close>

definition angle_difference :: "real \<Rightarrow> real \<Rightarrow> real" where
  "angle_difference angle1 angle2 =
     (let diff = \<bar>angle1 - angle2\<bar> in if diff > 180 then 360 - diff else diff)"

text \<open>The Python slice \<^verbatim>\<open>xs[a:b]\<close> for \<open>0 \<le> a \<le> b\<close>.\<close>

definition slice :: "'a list \<Rightarrow> nat \<Rightarrow> nat \<Rightarrow> 'a list" where
  "slice xs a b = take (b - a) (drop a xs)"

text \<open>
  One iteration of the loop of \<^verbatim>\<open>_is_erratic_behavior\<close>, lines 117-132: whether
  the comparison at start index \<open>i\<close> counts as a direction change.
\<close>

definition window_size :: nat where "window_size = 5"

definition direction_changed :: "point list \<Rightarrow> nat \<Rightarrow> bool" where
  "direction_changed positions i =
     (case calculate_direction (slice positions i (i + window_size)) of
        None \<Rightarrow> False
      | Some dir1 \<Rightarrow>
         (case calculate_direction (slice positions (i + window_size) (i + window_size * 2)) of
            None \<Rightarrow> False
          | Some dir2 \<Rightarrow> \<bar>angle_difference dir1 dir2\<bar> > direction_change))"

fun count_direction_changes :: "point list \<Rightarrow> nat list \<Rightarrow> nat \<Rightarrow> nat" where
  "count_direction_changes positions [] direction_changes = direction_changes"
| "count_direction_changes positions (i # rest) direction_changes =
     count_direction_changes positions rest
       (if direction_changed positions i then direction_changes + 1 else direction_changes)"

text \<open>\<^verbatim>\<open>_is_erratic_behavior\<close>, lines 103-134, on the history list and on the classifier.\<close>

definition erratic_positions :: "point list \<Rightarrow> bool" where
  "erratic_positions positions =
     (if length positions < 10 then False
      else count_direction_changes positions
             [0..<length positions - window_size * 2] 0 \<ge> erratic_changes)"

definition is_erratic_behavior :: "classifier \<Rightarrow> int \<Rightarrow> bool" where
  "is_erratic_behavior c tid =
     (case map_of (position_history c) tid of
        None \<Rightarrow> False
      | Some positions \<Rightarrow> erratic_positions positions)"

text \<open>\<^verbatim>\<open>_classify_individual_activity\<close>, lines 83-101.\<close>

definition classify_individual_activity :: "classifier \<Rightarrow> track \<Rightarrow> activity" where
  "classify_individual_activity c trk =
     (let speed = linalg_norm (velocity trk)
      in if is_erratic_behavior c (track_id trk) then COMPORTAMENTO_ERRATICO
         else if speed < stopped_speed then PARADO
         else if speed < walking_speed then CAMINHANDO
         else if speed \<ge> running_speed then CORRENDO
         else CAMINHANDO)"

text \<open>\<^verbatim>\<open>_check_interactions\<close>, lines 136-154: the loop returns at the first hit.\<close>

fun check_interactions :: "track \<Rightarrow> track list \<Rightarrow> bool" where
  "check_interactions trk [] = False"
| "check_interactions trk (other_track # rest) =
     (if track_id other_track = track_id trk then check_interactions trk rest
      else if class_id trk \<noteq> 0 \<or> class_id other_track \<noteq> 0 then check_interactions trk rest
      else if euclidean (get_center (bbox trk)) (get_center (bbox other_track))
                < interaction_distance then True
      else check_interactions trk rest)"

text \<open>\<^verbatim>\<open>_update_position_history\<close>, lines 156-165.\<close>

definition history_append :: "nat \<Rightarrow> int \<Rightarrow> 'a \<Rightarrow> (int \<times> 'a list) list \<Rightarrow> (int \<times> 'a list) list" where
  "history_append cap k x h =
     (case map_of h k of
        None \<Rightarrow> AList.update k (deque_append cap [] x) h
      | Some xs \<Rightarrow> AList.update k (deque_append cap xs x) h)"

fun update_position_history :: "track list \<Rightarrow> classifier \<Rightarrow> classifier" where
  "update_position_history [] c = c"
| "update_position_history (trk # rest) c =
     update_position_history rest
       (c\<lparr>position_history :=
            history_append (history_size c) (track_id trk) (get_center (bbox trk))
              (position_history c)\<rparr>)"

text \<open>\<^verbatim>\<open>classify\<close>, lines 46-81: the loop over the tracks, then the whole call.\<close>

fun classify_loop :: "track list \<Rightarrow> track list \<Rightarrow> classifier \<times> (int \<times> activity) list
    \<Rightarrow> classifier \<times> (int \<times> activity) list" where
  "classify_loop all_tracks [] acc = acc"
| "classify_loop all_tracks (trk # rest) (c, activities) =
     (let act0 = classify_individual_activity c trk;
          act = (if act0 \<noteq> INTERAGINDO \<and> check_interactions trk all_tracks
                 then INTERAGINDO else act0)
      in classify_loop all_tracks rest
           (c\<lparr>activity_history :=
                history_append (history_size c) (track_id trk) act (activity_history c)\<rparr>,
            AList.update (track_id trk) act activities))"

definition classify :: "track list \<Rightarrow> int \<Rightarrow> classifier \<Rightarrow> classifier \<times> (int \<times> activity) list" where
  "classify trks frame_number c =
     classify_loop trks trks (update_position_history trks c, [])"

text \<open>The classifier called on successive frames, collecting each frame's result.\<close>

fun classify_frames :: "track list list \<Rightarrow> int \<Rightarrow> classifier \<Rightarrow> (int \<times> activity) list list" where
  "classify_frames [] frame_number c = []"
| "classify_frames (trks # rest) frame_number c =
     (case classify trks frame_number c of
        (c', activities) \<Rightarrow> activities # classify_frames rest (frame_number + 1) c')"

subsection \<open>Notions used to state the claims on the classifier\<close>



text \<open>The number of positions that the classifier holds for a track id.\<close>

definition history_len :: "classifier \<Rightarrow> int \<Rightarrow> nat" where
  "history_len c tid = (case map_of (position_history c) tid of None \<Rightarrow> 0 | Some ps \<Rightarrow> length ps)"

text \<open>Frames that each hold one track only.\<close>

definition frames_of_single_track :: "track list \<Rightarrow> track list list" where
  "frames_of_single_track ts = map (\<lambda>t. [t]) ts"

text \<open>
  A person moving one pixel to the right per frame: the track of id 1 as the tracker
  reports it at frame \<open>k\<close>, and its first ten frames.
\<close>

definition walking_track :: "int \<Rightarrow> track" where
  "walking_track k =
     \<lparr>bbox = (of_int k, 0, of_int k + 10, 10), confidence = 1, class_id = 0,
      track_id = 1, history = [], age = 0, hits = 3, velocity = (1, 0), last_seen = 0\<rparr>"

definition walking_frames :: "track list" where
  "walking_frames = map walking_track [0, 1, 2, 3, 4, 5, 6, 7, 8, 9]"

subsection \<open>Anomaly detector (anomaly\_detector.py)\<close>

datatype anomaly_type =
  MOVIMENTO_SUBITO | VELOCIDADE_ANORMAL | PARADA_PROLONGADA | AGLOMERACAO
  | MOVIMENTO_REVERSO | OBJETO_ABANDONADO | DIRECAO_PROIBIDA

datatype severity = BAIXA | MEDIA | ALTA

text \<open>
  The table \<^verbatim>\<open>ANOMALY_TYPES\<close>, lines 17-46. Its \<^verbatim>\<open>description\<close> texts are fixed
  per type and are not carried in the records below.
\<close>

fun severity_of :: "anomaly_type \<Rightarrow> severity" where
  "severity_of MOVIMENTO_SUBITO = MEDIA"
| "severity_of VELOCIDADE_ANORMAL = ALTA"
| "severity_of PARADA_PROLONGADA = BAIXA"
| "severity_of AGLOMERACAO = MEDIA"
| "severity_of MOVIMENTO_REVERSO = BAIXA"
| "severity_of OBJETO_ABANDONADO = ALTA"
| "severity_of DIRECAO_PROIBIDA = MEDIA"

text \<open>
  The two shapes of anomaly dict: the one of \<^verbatim>\<open>_create_anomaly\<close> (type, severity,
  frame, timestamp, track\_id, location, bbox) and the one built in
  \<^verbatim>\<open>_check_crowding\<close> (type, severity, frame, timestamp, location,
  involved\_tracks, count).
\<close>

datatype anomaly =
  TrackAnomaly anomaly_type severity int real int point bbox
  | CrowdAnomaly anomaly_type severity int real point "int list" nat

text \<open>The \<^verbatim>\<open>thresholds\<close> dict of \<^verbatim>\<open>AnomalyDetector.__init__\<close>, lines 62-70.\<close>

definition sudden_acceleration :: real where "sudden_acceleration = 10"
definition high_speed :: real where "high_speed = 8"
definition stopped_duration :: real where "stopped_duration = 5"
definition crowding_distance :: real where "crowding_distance = 80"
definition crowding_count :: nat where "crowding_count = 3"
definition return_threshold :: real where "return_threshold = 50"
definition object_abandoned_time :: real where "object_abandoned_time = 10"

text \<open>
  A track state dict. The keys \<^verbatim>\<open>initial_position\<close>, \<^verbatim>\<open>max_distance\<close> and
  \<^verbatim>\<open>first_seen\<close> are set at creation and never removed; the three others may be
  absent.
\<close>

record track_state =
  initial_position :: point
  max_distance :: real
  first_seen :: real
  current_position :: "point option"
  state_last_seen :: "real option"
  stopped_since :: "real option"

record anomaly_detector =
  frame_rate :: real
  anomalies :: "anomaly list"
  track_states :: "(int \<times> track_state) list"
  velocity_history :: "(int \<times> point list) list"
  velocity_history_size :: nat

definition init_anomaly_detector :: "real \<Rightarrow> anomaly_detector" where
  "init_anomaly_detector fps =
     \<lparr>frame_rate = fps, anomalies = [], track_states = [], velocity_history = [],
      velocity_history_size = 10\<rparr>"

text \<open>\<^verbatim>\<open>_update_track_states\<close>, lines 282-316: the body of the loop for one track.\<close>

definition refresh_state :: "track \<Rightarrow> real \<Rightarrow> track_state option \<Rightarrow> track_state" where
  "refresh_state trk timestamp old =
     (let center = get_center (bbox trk);
          state0 = (case old of
                      None \<Rightarrow> \<lparr>initial_position = center, max_distance = 0, first_seen = timestamp,
                               current_position = None, state_last_seen = None,
                               stopped_since = None\<rparr>
                    | Some st \<Rightarrow> st);
          state1 = state0\<lparr>current_position := Some center, state_last_seen := Some timestamp\<rparr>;
          distance = linalg_norm (vec_sub center (initial_position state1));
          state2 = state1\<lparr>max_distance := max (max_distance state1) distance\<rparr>;
          speed = linalg_norm (velocity trk)
      in if speed < 2
         then (if stopped_since state2 = None then state2\<lparr>stopped_since := Some timestamp\<rparr>
               else state2)
         else (if stopped_since state2 \<noteq> None then state2\<lparr>stopped_since := None\<rparr>
               else state2))"

fun update_states_loop :: "track list \<Rightarrow> real \<Rightarrow> anomaly_detector \<Rightarrow> anomaly_detector" where
  "update_states_loop [] timestamp d = d"
| "update_states_loop (trk # rest) timestamp d =
     update_states_loop rest timestamp
       (d\<lparr>velocity_history :=
            history_append (velocity_history_size d) (track_id trk) (velocity trk)
              (velocity_history d),
          track_states :=
            AList.update (track_id trk)
              (refresh_state trk timestamp (map_of (track_states d) (track_id trk)))
              (track_states d)\<rparr>)"

text \<open>Lines 318-324: states of absent tracks are purged after more than 5 seconds.\<close>

fun purge_states :: "int list \<Rightarrow> real \<Rightarrow> anomaly_detector \<Rightarrow> anomaly_detector" where
  "purge_states [] timestamp d = d"
| "purge_states (tid # rest) timestamp d =
     (case map_of (track_states d) tid of
        None \<Rightarrow> purge_states rest timestamp d
      | Some st \<Rightarrow>
          if timestamp - (case state_last_seen st of None \<Rightarrow> 0 | Some t \<Rightarrow> t) > 5
          then purge_states rest timestamp
                 (d\<lparr>track_states := AList.delete tid (track_states d),
                    velocity_history := AList.delete tid (velocity_history d)\<rparr>)
          else purge_states rest timestamp d)"

definition update_track_states :: "track list \<Rightarrow> real \<Rightarrow> anomaly_detector \<Rightarrow> anomaly_detector" where
  "update_track_states trks timestamp d =
     (let current_ids = set (map track_id trks);
          d1 = update_states_loop trks timestamp d;
          to_remove = filter (\<lambda>tid. tid \<notin> current_ids) (map fst (track_states d1))
      in purge_states to_remove timestamp d1)"

text \<open>\<^verbatim>\<open>_check_sudden_movement\<close>, lines 137-159.\<close>

fun accelerations :: "point list \<Rightarrow> real list" where
  "accelerations (v1 # v2 # rest) = linalg_norm (vec_sub v2 v1) # accelerations (v2 # rest)"
| "accelerations vs = []"

definition check_sudden_movement :: "anomaly_detector \<Rightarrow> int \<Rightarrow> bool" where
  "check_sudden_movement d tid =
     (case map_of (velocity_history d) tid of
        None \<Rightarrow> False
      | Some velocities \<Rightarrow>
          if length velocities < 3 then False
          else (case accelerations velocities of
                  [] \<Rightarrow> False
                | a # as \<Rightarrow> fold max as a > sudden_acceleration))"

text \<open>\<^verbatim>\<open>_check_high_speed\<close>, lines 161-165.\<close>

definition check_high_speed :: "track \<Rightarrow> bool" where
  "check_high_speed trk = (linalg_norm (velocity trk) > high_speed)"

text \<open>\<^verbatim>\<open>_check_prolonged_stop\<close>, lines 167-180; \<open>now\<close> is \<^verbatim>\<open>time.time()\<close>.\<close>

definition check_prolonged_stop :: "real \<Rightarrow> anomaly_detector \<Rightarrow> int \<Rightarrow> activity option \<Rightarrow> bool" where
  "check_prolonged_stop now d tid act =
     (if act \<noteq> Some PARADO then False
      else case map_of (track_states d) tid of
             None \<Rightarrow> False
           | Some state \<Rightarrow>
               (case stopped_since state of
                  None \<Rightarrow> False
                | Some since \<Rightarrow> now - since > stopped_duration))"

text \<open>\<^verbatim>\<open>_check_reverse_movement\<close>, lines 182-202.\<close>

definition check_reverse_movement :: "anomaly_detector \<Rightarrow> int \<Rightarrow> bool" where
  "check_reverse_movement d tid =
     (case map_of (track_states d) tid of
        None \<Rightarrow> False
      | Some state \<Rightarrow>
          (case current_position state of
             None \<Rightarrow> False
           | Some current \<Rightarrow>
               let distance = linalg_norm (vec_sub current (initial_position state))
               in distance < return_threshold \<and> max_distance state > return_threshold * 2))"

text \<open>\<^verbatim>\<open>_check_abandoned_object\<close>, lines 204-222.\<close>

definition check_abandoned_object :: "real \<Rightarrow> anomaly_detector \<Rightarrow> track \<Rightarrow> activity option \<Rightarrow> bool" where
  "check_abandoned_object now d trk act =
     (if class_id trk = 0 then False
      else if act \<noteq> Some PARADO then False
      else case map_of (track_states d) (track_id trk) of
             None \<Rightarrow> False
           | Some state \<Rightarrow>
               (case stopped_since state of
                  None \<Rightarrow> False
                | Some since \<Rightarrow> now - since > object_abandoned_time))"

text \<open>\<^verbatim>\<open>_create_anomaly\<close>, lines 326-341.\<close>

definition create_anomaly :: "anomaly_type \<Rightarrow> track \<Rightarrow> int \<Rightarrow> real \<Rightarrow> anomaly" where
  "create_anomaly ty trk frame_number timestamp =
     TrackAnomaly ty (severity_of ty) frame_number timestamp (track_id trk)
       (get_center (bbox trk)) (bbox trk)"

text \<open>\<^verbatim>\<open>_check_crowding\<close>, lines 224-276. First the inner loop, lines 243-253.\<close>

definition gather_nearby :: "nat \<Rightarrow> track \<Rightarrow> int set \<Rightarrow> track list \<Rightarrow> track list" where
  "gather_nearby i person1 checked people =
     person1 #
     map snd
       (filter (\<lambda>(j, person2).
                  \<not> (i = j \<or> track_id person2 \<in> checked) \<and>
                  euclidean (get_center (bbox person1)) (get_center (bbox person2))
                    < crowding_distance)
               (enumerate 0 people))"

text \<open>\<^verbatim>\<open>np.mean(points, axis=0)\<close> of a list of 2-vectors.\<close>

definition mean_point :: "point list \<Rightarrow> point" where
  "mean_point ps =
     (sum_list (map fst ps) / real (length ps), sum_list (map snd ps) / real (length ps))"

fun crowding_loop :: "track list \<Rightarrow> int \<Rightarrow> real \<Rightarrow> (nat \<times> track) list \<Rightarrow> int set
    \<Rightarrow> anomaly list \<Rightarrow> anomaly list" where
  "crowding_loop people frame_number timestamp [] checked found = found"
| "crowding_loop people frame_number timestamp ((i, person1) # rest) checked found =
     (if track_id person1 \<in> checked
      then crowding_loop people frame_number timestamp rest checked found
      else
        let nearby = gather_nearby i person1 checked people
        in if length nearby \<ge> crowding_count
           then crowding_loop people frame_number timestamp rest
                  (checked \<union> set (map track_id nearby))
                  (found @ [CrowdAnomaly AGLOMERACAO (severity_of AGLOMERACAO) frame_number
                              timestamp (mean_point (map (\<lambda>p. get_center (bbox p)) nearby))
                              (map track_id nearby) (length nearby)])
           else crowding_loop people frame_number timestamp rest checked found)"

definition check_crowding :: "track list \<Rightarrow> int \<Rightarrow> real \<Rightarrow> anomaly list" where
  "check_crowding trks frame_number timestamp =
     (let people = filter (\<lambda>t. class_id t = 0) trks
      in if length people < crowding_count then []
         else crowding_loop people frame_number timestamp (enumerate 0 people) {} [])"

text \<open>The rules of one track, lines 95-126 of \<^verbatim>\<open>detect\<close>, in the order they are appended.\<close>

definition track_anomalies :: "real \<Rightarrow> anomaly_detector \<Rightarrow> (int \<times> activity) list \<Rightarrow> int \<Rightarrow> real
    \<Rightarrow> track \<Rightarrow> anomaly list" where
  "track_anomalies now d activities frame_number timestamp trk =
     (if check_sudden_movement d (track_id trk)
      then [create_anomaly MOVIMENTO_SUBITO trk frame_number timestamp] else []) @
     (if check_high_speed trk
      then [create_anomaly VELOCIDADE_ANORMAL trk frame_number timestamp] else []) @
     (if check_prolonged_stop now d (track_id trk) (map_of activities (track_id trk))
      then [create_anomaly PARADA_PROLONGADA trk frame_number timestamp] else []) @
     (if check_reverse_movement d (track_id trk)
      then [create_anomaly MOVIMENTO_REVERSO trk frame_number timestamp] else []) @
     (if check_abandoned_object now d trk (map_of activities (track_id trk))
      then [create_anomaly OBJETO_ABANDONADO trk frame_number timestamp] else [])"

text \<open>
  \<^verbatim>\<open>detect\<close>, lines 76-135: the new detector state and the anomalies of the frame.
  The per-track rules read the detector but do not change it, so the loop is a
  \<^const>\<open>concat\<close> of the per-track results.
\<close>

definition detect :: "real \<Rightarrow> track list \<Rightarrow> (int \<times> activity) list \<Rightarrow> int \<Rightarrow> real
    \<Rightarrow> anomaly_detector \<Rightarrow> anomaly_detector \<times> anomaly list" where
  "detect now trks activities frame_number timestamp d =
     (let d1 = update_track_states trks timestamp d;
          frame_anomalies =
            concat (map (track_anomalies now d1 activities frame_number timestamp) trks)
            @ check_crowding trks frame_number timestamp
      in (d1\<lparr>anomalies := anomalies d1 @ frame_anomalies\<rparr>, frame_anomalies))"

text \<open>The \<^verbatim>\<open>involved_tracks\<close> lists of the crowding records among some anomalies.\<close>

fun involved_lists :: "anomaly list \<Rightarrow> int list list" where
  "involved_lists [] = []"
| "involved_lists (TrackAnomaly ty sev fr ts tid loc bb # rest) = involved_lists rest"
| "involved_lists (CrowdAnomaly ty sev fr ts loc involved n # rest) =
     (if ty = AGLOMERACAO then involved # involved_lists rest else involved_lists rest)"

subsection \<open>Notions used to state the claims on the anomaly detector\<close>

text \<open>The distance between the centres of the boxes of two tracks.\<close>

definition dist_c :: "track \<Rightarrow> track \<Rightarrow> real" where
  "dist_c p q = euclidean (get_center (bbox p)) (get_center (bbox q))"

text \<open>
  A confirmed person track of id \<open>k\<close>, at rest, whose box is 10 by 10 with its left
  edge at \<open>x\<close>; its centre is \<open>(x + 5, 5)\<close>.
\<close>

definition person :: "int \<Rightarrow> real \<Rightarrow> track" where
  "person k x =
     \<lparr>bbox = (x, 0, x + 10, 10), confidence = 1, class_id = 0,
      track_id = k, history = [], age = 0, hits = 3, velocity = (0, 0), last_seen = 0\<rparr>"

definition still_person :: track where
  "still_person = person 1 0"

text \<open>Three persons at the same place and a fourth one 200 px away, listed third.\<close>

definition crowd_scene :: "track list" where
  "crowd_scene = [person 1 0, person 2 0, person 4 200, person 3 0]"


section \<open>Intersection over union\<close>

lemma calculate_iou_commute: "calculate_iou a b = calculate_iou b a"
  by (cases a, cases b) (simp add: calculate_iou_def Let_def max.commute min.commute add.commute)

lemma calculate_iou_range: "0 \<le> calculate_iou a b \<and> calculate_iou a b \<le> 1"
proof -
  obtain x1 y1 x2 y2 where a: "a = (x1, y1, x2, y2)" by (cases a) auto
  obtain u1 v1 u2 v2 where b: "b = (u1, v1, u2, v2)" by (cases b) auto
  define w where "w = min x2 u2 - max x1 u1"
  define h where "h = min y2 v2 - max y1 v1"
  show ?thesis
  proof (cases "min x2 u2 < max x1 u1 \<or> min y2 v2 < max y1 v1")
    case True
    then show ?thesis by (simp add: a b calculate_iou_def Let_def)
  next
    case False
    then have w0: "0 \<le> w" and h0: "0 \<le> h" by (auto simp: w_def h_def)
    have wa: "w \<le> x2 - x1" and wb: "w \<le> u2 - u1" by (auto simp: w_def)
    have ha: "h \<le> y2 - y1" and hb: "h \<le> v2 - v1" by (auto simp: h_def)
    have i0: "0 \<le> w * h" using w0 h0 by simp
    have ia: "w * h \<le> (x2 - x1) * (y2 - y1)" using w0 h0 wa ha by (intro mult_mono) auto
    have ib: "w * h \<le> (u2 - u1) * (v2 - v1)" using w0 h0 wb hb by (intro mult_mono) auto
    define un where "un = (x2 - x1) * (y2 - y1) + (u2 - u1) * (v2 - v1) - w * h"
    have iu: "w * h \<le> un" using ia ib i0 unfolding un_def by linarith
    have eq: "calculate_iou a b = (if un > 0 then (w * h) / un else 0)"
      using False by (simp add: a b calculate_iou_def Let_def w_def h_def un_def)
    show ?thesis using i0 iu by (simp add: eq)
  qed
qed

lemma calculate_iou_self: "positive_area a \<Longrightarrow> calculate_iou a a = 1"
  by (cases a) (auto simp: calculate_iou_def positive_area_def Let_def)

lemma calculate_iou_no_overlap: "no_overlap a b \<Longrightarrow> calculate_iou a b = 0"
  by (cases a, cases b) (auto simp: calculate_iou_def no_overlap_def Let_def)

text \<open>
  Claim C7, as the code has it. The claim reads: for all axis-aligned boxes A and B,
  IoU(A,B) = IoU(B,A), IoU(A,B) lies in [0,1], IoU(A,A) = 1, and IoU(A,B) = 0 when
  A and B do not overlap. The third part fails on a box without area: line 178
  returns 0.0 when the union is not positive.
\<close>

theorem iou_degenerate_box_counterexample:
  "calculate_iou (0, 0, 0, 0) (0, 0, 0, 0) = 0
   \<and> calculate_iou (0, 0, 0, 0) (0, 0, 0, 0) \<noteq> 1"
  by (simp add: calculate_iou_def)

text \<open>
  Claim C7, amended: for all boxes A and B, IoU(A,B) = IoU(B,A) and IoU(A,B) lies
  in [0,1]; IoU(A,A) = 1 for every box A of positive area (x1 < x2 and y1 < y2);
  IoU(A,B) = 0 whenever A and B do not overlap.
\<close>

theorem calculate_iou_properties:
  "calculate_iou A B = calculate_iou B A
   \<and> 0 \<le> calculate_iou A B \<and> calculate_iou A B \<le> 1
   \<and> (positive_area A \<longrightarrow> calculate_iou A A = 1)
   \<and> (no_overlap A B \<longrightarrow> calculate_iou A B = 0)"
  using calculate_iou_commute [of A B] calculate_iou_range [of A B]
    calculate_iou_self [of A] calculate_iou_no_overlap [of A B]
  by blast

theorem calculate_iou_properties_witness:
  "positive_area (0, 0, 2, 2) \<and> no_overlap (0, 0, 2, 2) (5, 5, 6, 6)
   \<and> calculate_iou (0, 0, 2, 2) (0, 0, 2, 2) = 1
   \<and> calculate_iou (0, 0, 2, 2) (5, 5, 6, 6) = 0
   \<and> calculate_iou (0, 0, 2, 2) (5, 5, 6, 6) = calculate_iou (5, 5, 6, 6) (0, 0, 2, 2)"
proof -
  have p: "positive_area (0, 0, 2, 2)" by (simp add: positive_area_def)
  have n: "no_overlap (0, 0, 2, 2) (5, 5, 6, 6)" by (simp add: no_overlap_def)
  show ?thesis
    using p n calculate_iou_properties [of "(0, 0, 2, 2)" "(5, 5, 6, 6)"] by blast
qed

section \<open>The tracker\<close>


lemma alist_update_fresh: "k \<notin> fst ` set al \<Longrightarrow> AList.update k v al = al @ [(k, v)]"
  by (induction al) auto

lemma map_fst_map_entry: "map fst (AList.map_entry k f al) = map fst al"
  by (induction al) auto

lemma map_entry_distinct:
  "distinct (map fst al) \<Longrightarrow>
   AList.map_entry k f al = map (\<lambda>p. if fst p = k then (fst p, f (snd p)) else p) al"
proof (induction al)
  case Nil
  then show ?case by simp
next
  case (Cons p ps)
  show ?case
  proof (cases "fst p = k")
    case True
    with Cons.prems have "k \<notin> fst ` set ps" by auto
    then have "map (\<lambda>p. if fst p = k then (fst p, f (snd p)) else p) ps = ps"
      by (intro map_idI) auto
    with True show ?thesis by simp
  next
    case False
    with Cons show ?thesis by simp
  qed
qed

lemma create_track_tracks:
  assumes "tracker_ok s"
  shows "tracks (fst (create_track now det s)) =
     tracks s @ [(next_id s, new_track now (max_history s) (next_id s) det)]"
proof -
  have "next_id s \<notin> fst ` set (tracks s)"
    using assms by (force simp: tracker_ok_def)
  then show ?thesis
    by (simp add: create_track_def Let_def alist_update_fresh)
qed

lemma create_track_next_id [simp]: "next_id (fst (create_track now det s)) = next_id s + 1"
  by (simp add: create_track_def Let_def)

lemma create_track_consts [simp]:
  "max_age (fst (create_track now det s)) = max_age s"
  "max_history (fst (create_track now det s)) = max_history s"
  by (simp_all add: create_track_def Let_def)

lemma create_track_ok:
  assumes "tracker_ok s"
  shows "tracker_ok (fst (create_track now det s))"
proof -
  have t: "map fst (tracks (fst (create_track now det s))) = map fst (tracks s) @ [next_id s]"
    by (simp add: create_track_tracks [OF assms])
  have f: "next_id s \<notin> set (map fst (tracks s))"
    using assms by (force simp: tracker_ok_def)
  show ?thesis
    unfolding tracker_ok_def t using assms f
    by (auto simp: tracker_ok_def)
qed


lemma update_one_hits [simp]: "hits (update_one now cap det t) = hits t + 1"
  by (simp add: update_one_def Let_def)

lemma update_track_consts [simp]:
  "next_id (update_track now k det s) = next_id s"
  "max_age (update_track now k det s) = max_age s"
  "max_history (update_track now k det s) = max_history s"
  "map fst (tracks (update_track now k det s)) = map fst (tracks s)"
  by (simp_all add: update_track_def map_fst_map_entry)

lemma update_track_nth:
  assumes d: "distinct (map fst (tracks s))"
    and tj: "tj < length (tracks s)" and j: "j < length (tracks s)"
  shows "tracks (update_track now (map fst (tracks s) ! tj) det s) ! j =
     (if j = tj then (fst (tracks s ! j), update_one now (max_history s) det (snd (tracks s ! j)))
      else tracks s ! j)"
proof -
  have k: "fst (tracks s ! j) = map fst (tracks s) ! tj \<longleftrightarrow> j = tj"
    using d tj j by (metis length_map nth_eq_iff_index_eq nth_map)
  show ?thesis
    using j k by (simp add: update_track_def map_entry_distinct [OF d])
qed

lemma match_loop_inv:
  assumes "distinct track_ids"
    and "\<forall>(c, i, j) \<in> set costs. j < length track_ids"
    and "map fst (tracks s) = track_ids"
    and "\<forall>j < length track_ids. hits (snd (tracks s ! j)) = h j + (if j \<in> mt then 1 else 0)"
    and "match_loop now dets track_ids costs (s, mt, md) = (s1, mt1, md1)"
  shows "map fst (tracks s1) = track_ids \<and> next_id s1 = next_id s
     \<and> max_age s1 = max_age s \<and> max_history s1 = max_history s
     \<and> (\<forall>j < length track_ids. hits (snd (tracks s1 ! j)) = h j + (if j \<in> mt1 then 1 else 0))"
  using assms
proof (induction costs arbitrary: s mt md)
  case Nil
  then show ?case by simp
next
  case (Cons c costs)
  obtain cost di tj where c: "c = (cost, di, tj)" by (cases c) auto
  have rest: "\<forall>(c, i, j) \<in> set costs. j < length track_ids" using Cons.prems(2) by simp
  have tj: "tj < length track_ids" using Cons.prems(2) c by simp
  show ?case
  proof (cases "di \<in> md \<or> tj \<in> mt \<or> \<not> cost < 0.7")
    case True
    then have "match_loop now dets track_ids costs (s, mt, md) = (s1, mt1, md1)"
      using Cons.prems(5) c by (auto split: if_splits)
    from Cons.IH [OF Cons.prems(1) rest Cons.prems(3) Cons.prems(4) this] show ?thesis .
  next
    case False
    define s' where "s' = update_track now (track_ids ! tj) (dets ! di) s"
    have run: "match_loop now dets track_ids costs (s', insert tj mt, insert di md) = (s1, mt1, md1)"
      using False Cons.prems(5) c by (simp add: s'_def)
    have len: "length (tracks s) = length track_ids" using Cons.prems(3) by (metis length_map)
    have d: "distinct (map fst (tracks s))" using Cons.prems(1,3) by simp
    have keys: "map fst (tracks s') = track_ids" using Cons.prems(3) by (simp add: s'_def)
    have nth: "\<And>j. j < length track_ids \<Longrightarrow> tracks s' ! j =
        (if j = tj then (fst (tracks s ! j), update_one now (max_history s) (dets ! di) (snd (tracks s ! j)))
         else tracks s ! j)"
      using update_track_nth [OF d, of tj _ now "dets ! di"] tj len Cons.prems(3)
      by (simp add: s'_def)
    have hits': "\<forall>j < length track_ids.
        hits (snd (tracks s' ! j)) = h j + (if j \<in> insert tj mt then 1 else 0)"
      using Cons.prems(4) False by (auto simp: nth)
    from Cons.IH [OF Cons.prems(1) rest keys hits' run]
    show ?thesis by (simp add: s'_def)
  qed
qed


lemma new_track_fields [simp]:
  "hits (new_track now cap k det) = 1" "age (new_track now cap k det) = 0"
  "bbox (new_track now cap k det) = bbox det" "track_id (new_track now cap k det) = k"
  by (simp_all add: new_track_def)

lemma create_unmatched_appends:
  assumes "tracker_ok s"
  shows "\<exists>new. tracks (create_unmatched now md xs s) = tracks s @ new
     \<and> map fst new = map (\<lambda>i. next_id s + int i) [0..<length new]
     \<and> next_id (create_unmatched now md xs s) = next_id s + int (length new)
     \<and> (\<forall>p \<in> set new. hits (snd p) = 1 \<and> age (snd p) = 0)
     \<and> max_age (create_unmatched now md xs s) = max_age s
     \<and> max_history (create_unmatched now md xs s) = max_history s"
  using assms
proof (induction xs arbitrary: s)
  case Nil
  then show ?case by simp
next
  case (Cons x xs)
  obtain i det where x: "x = (i, det)" by (cases x) auto
  show ?case
  proof (cases "i \<in> md")
    case True
    then show ?thesis using Cons x by simp
  next
    case False
    define s' where "s' = fst (create_track now det s)"
    have ok': "tracker_ok s'" unfolding s'_def by (rule create_track_ok [OF Cons.prems])
    have t': "tracks s' = tracks s @ [(next_id s, new_track now (max_history s) (next_id s) det)]"
      unfolding s'_def by (rule create_track_tracks [OF Cons.prems])
    have n': "next_id s' = next_id s + 1" by (simp add: s'_def)
    from Cons.IH [OF ok'] obtain new where new:
      "tracks (create_unmatched now md xs s') = tracks s' @ new"
      "map fst new = map (\<lambda>i. next_id s' + int i) [0..<length new]"
      "next_id (create_unmatched now md xs s') = next_id s' + int (length new)"
      "\<forall>p \<in> set new. hits (snd p) = 1 \<and> age (snd p) = 0"
      "max_age (create_unmatched now md xs s') = max_age s'"
      "max_history (create_unmatched now md xs s') = max_history s'"
      by blast
    define new' where "new' = (next_id s, new_track now (max_history s) (next_id s) det) # new"
    have step: "create_unmatched now md (x # xs) s = create_unmatched now md xs s'"
      using False x by (simp add: s'_def)
    have a: "tracks (create_unmatched now md (x # xs) s) = tracks s @ new'"
      by (simp add: step new(1) t' new'_def)
    have "map (\<lambda>i. next_id s + int i) [0..<Suc (length new)] =
          next_id s # map (\<lambda>i. next_id s + 1 + int i) [0..<length new]"
      by (simp add: upt_conv_Cons map_Suc_upt [symmetric] del: upt_Suc) 
    then have b: "map fst new' = map (\<lambda>i. next_id s + int i) [0..<length new']"
      using new(2) n' by (simp add: new'_def)
    have c: "next_id (create_unmatched now md (x # xs) s) = next_id s + int (length new')"
      by (simp add: step new(3) n' new'_def)
    have d: "\<forall>p \<in> set new'. hits (snd p) = 1 \<and> age (snd p) = 0"
      using new(4) by (simp add: new'_def)
    have e: "max_age (create_unmatched now md (x # xs) s) = max_age s"
         "max_history (create_unmatched now md (x # xs) s) = max_history s"
      unfolding step new(5) new(6) by (simp_all add: s'_def)
    from a b c d e show ?thesis by blast
  qed
qed

lemma create_all_eq: "create_all now dets s = create_unmatched now {} (enumerate n dets) s"
  by (induction dets arbitrary: s n) simp_all

lemma map_entry_nth_other:
  "j < length al \<Longrightarrow> fst (al ! j) \<noteq> k \<Longrightarrow> AList.map_entry k f al ! j = al ! j"
  by (induction al arbitrary: j) (auto simp: nth_Cons split: nat.splits)

lemma map_entry_age_hits:
  "map (\<lambda>p. hits (snd p)) (AList.map_entry k (\<lambda>trk. trk\<lparr>age := age trk + 1\<rparr>) al)
     = map (\<lambda>p. hits (snd p)) al"
  by (induction al) auto

lemma age_unmatched_keeps:
  "map fst (tracks (age_unmatched mt xs s)) = map fst (tracks s)
   \<and> map (\<lambda>p. hits (snd p)) (tracks (age_unmatched mt xs s)) = map (\<lambda>p. hits (snd p)) (tracks s)
   \<and> next_id (age_unmatched mt xs s) = next_id s
   \<and> max_age (age_unmatched mt xs s) = max_age s
   \<and> max_history (age_unmatched mt xs s) = max_history s
   \<and> (\<forall>j < length (tracks s). fst (tracks s ! j) \<notin> snd ` set xs
          \<longrightarrow> tracks (age_unmatched mt xs s) ! j = tracks s ! j)"
proof (induction xs arbitrary: s)
  case Nil
  then show ?case by simp
next
  case (Cons x xs)
  obtain j tid where x: "x = (j, tid)" by (cases x) auto
  show ?case
  proof (cases "j \<in> mt")
    case True
    then show ?thesis using Cons [of s] x by simp
  next
    case False
    define s' where
      "s' = s\<lparr>tracks := AList.map_entry tid (\<lambda>trk. trk\<lparr>age := age trk + 1\<rparr>) (tracks s)\<rparr>"
    have step: "age_unmatched mt (x # xs) s = age_unmatched mt xs s'"
      using False x by (simp add: s'_def)
    have k: "map fst (tracks s') = map fst (tracks s)" by (simp add: s'_def map_fst_map_entry)
    then have len: "length (tracks s') = length (tracks s)" by (metis length_map)
    have h: "map (\<lambda>p. hits (snd p)) (tracks s') = map (\<lambda>p. hits (snd p)) (tracks s)"
      by (simp add: s'_def map_entry_age_hits)
    have o: "\<And>i. i < length (tracks s) \<Longrightarrow> fst (tracks s ! i) \<noteq> tid \<Longrightarrow> tracks s' ! i = tracks s ! i"
      by (simp add: s'_def map_entry_nth_other)
    have fst_eq: "\<And>i. i < length (tracks s) \<Longrightarrow> fst (tracks s' ! i) = fst (tracks s ! i)"
      using k len by (metis nth_map)
    show ?thesis
      unfolding step using Cons [of s'] k h len o fst_eq x
      by (auto simp: s'_def)
  qed
qed


lemma flat_costs_range:
  "\<forall>(c, i, j) \<in> set (sort (flat_costs dets trks)). j < length trks"
  by (auto simp: flat_costs_def in_set_enumerate_eq)

lemma associate_detections_grows:
  assumes ok: "tracker_ok s"
  shows "grows s (associate_detections now dets s)"
proof (cases "dets = []")
  case True
  have "grows s (s\<lparr>tracks := map (\<lambda>(tid, trk). (tid, trk\<lparr>age := age trk + 1\<rparr>)) (tracks s)\<rparr>)"
    unfolding grows_def
    by (rule exI [of _ "map (\<lambda>(tid, trk). (tid, trk\<lparr>age := age trk + 1\<rparr>)) (tracks s)"],
        rule exI [of _ "[]"]) (auto simp: case_prod_beta comp_def)
  with True show ?thesis by (simp add: associate_detections_def)
next
  case False
  define track_ids where "track_ids = map fst (tracks s)"
  define costs where "costs = sort (flat_costs dets (tracks s))"
  obtain s1 mt md where ml: "match_loop now dets track_ids costs (s, {}, {}) = (s1, mt, md)"
    by (metis prod_cases3)
  define s2 where "s2 = create_unmatched now md (enumerate 0 dets) s1"
  define s3 where "s3 = age_unmatched mt (enumerate 0 track_ids) s2"
  have res: "associate_detections now dets s = s3"
    using False ml
    by (simp add: associate_detections_def Let_def track_ids_def [symmetric] costs_def [symmetric]
        s2_def s3_def)
  have d: "distinct track_ids" using ok by (simp add: tracker_ok_def track_ids_def)
  have rng: "\<forall>(c, i, j) \<in> set costs. j < length track_ids"
    using flat_costs_range [of dets "tracks s"] by (simp add: costs_def track_ids_def)
  have h0: "\<forall>j < length track_ids.
      hits (snd (tracks s ! j)) = hits (snd (tracks s ! j)) + (if j \<in> {} then 1 else 0)"
    by simp
  from match_loop_inv [OF d rng _ h0 ml]
  have m: "map fst (tracks s1) = track_ids" "next_id s1 = next_id s"
    "max_age s1 = max_age s" "max_history s1 = max_history s"
    "\<forall>j < length track_ids. hits (snd (tracks s1 ! j)) = hits (snd (tracks s ! j)) + (if j \<in> mt then 1 else 0)"
    by (simp_all add: track_ids_def)
  have ok1: "tracker_ok s1"
    using ok m by (simp add: tracker_ok_def track_ids_def)
  from create_unmatched_appends [OF ok1, of now md "enumerate 0 dets"]
  obtain new where new:
    "tracks s2 = tracks s1 @ new"
    "map fst new = map (\<lambda>i. next_id s1 + int i) [0..<length new]"
    "next_id s2 = next_id s1 + int (length new)"
    "\<forall>p \<in> set new. hits (snd p) = 1 \<and> age (snd p) = 0"
    "max_age s2 = max_age s1" "max_history s2 = max_history s1"
    unfolding s2_def by blast
  have a: "map fst (tracks s3) = map fst (tracks s2)"
    "map (\<lambda>p. hits (snd p)) (tracks s3) = map (\<lambda>p. hits (snd p)) (tracks s2)"
    "next_id s3 = next_id s2" "max_age s3 = max_age s2" "max_history s3 = max_history s2"
    "\<forall>j < length (tracks s2). fst (tracks s2 ! j) \<notin> snd ` set (enumerate 0 track_ids)
          \<longrightarrow> tracks s3 ! j = tracks s2 ! j"
    using age_unmatched_keeps [of mt "enumerate 0 track_ids" s2] by (simp_all add: s3_def)
  have len3: "length (tracks s3) = length (tracks s2)" using a(1) by (metis length_map)
  have len1: "length (tracks s1) = length track_ids" using m(1) by (metis length_map)
  have lens: "length (tracks s) = length track_ids" by (simp add: track_ids_def)
  define n where "n = length track_ids"
  define old' where "old' = take n (tracks s3)"
  define new' where "new' = drop n (tracks s3)"
  have split: "tracks s3 = old' @ new'" by (simp add: old'_def new'_def)
  have lold: "length old' = n" using len3 new(1) len1 by (simp add: old'_def n_def)
  have lnew: "length new' = length new" using len3 new(1) len1 by (simp add: new'_def n_def)
  have k3: "map fst old' @ map fst new' = track_ids @ map fst new"
    using a(1) new(1) m(1) split by (metis map_append)
  have ko: "map fst old' = track_ids" and kn: "map fst new' = map fst new"
    using k3 lold by (simp_all add: n_def)
  have hits3: "\<And>j. j < length (tracks s2) \<Longrightarrow> hits (snd (tracks s3 ! j)) = hits (snd (tracks s2 ! j))"
  proof -
    fix j assume j: "j < length (tracks s2)"
    have "map (\<lambda>p. hits (snd p)) (tracks s3) ! j = map (\<lambda>p. hits (snd p)) (tracks s2) ! j"
      using a(2) by simp
    then show "hits (snd (tracks s3 ! j)) = hits (snd (tracks s2 ! j))"
      using j len3 by simp
  qed
  have ho: "\<forall>j < length old'. hits (snd (old' ! j)) = hits (snd (tracks s ! j))
                           \<or> hits (snd (old' ! j)) = hits (snd (tracks s ! j)) + 1"
  proof (intro allI impI)
    fix j assume j: "j < length old'"
    then have jn: "j < n" using lold by simp
    have "old' ! j = tracks s3 ! j" using jn by (simp add: old'_def)
    moreover have "hits (snd (tracks s3 ! j)) = hits (snd (tracks s2 ! j))"
      using hits3 [of j] jn new(1) len1 by (simp add: n_def)
    moreover have "tracks s2 ! j = tracks s1 ! j"
      using jn len1 new(1) by (simp add: nth_append n_def)
    ultimately show "hits (snd (old' ! j)) = hits (snd (tracks s ! j))
                           \<or> hits (snd (old' ! j)) = hits (snd (tracks s ! j)) + 1"
      using m(5) jn by (auto simp: n_def)
  qed
  have newkeys: "\<And>p. p \<in> set new \<Longrightarrow> fst p \<notin> set track_ids"
  proof -
    fix p assume "p \<in> set new"
    then have "fst p \<in> set (map fst new)" by simp
    then have "next_id s \<le> fst p" unfolding new(2) m(2) by auto
    moreover have "\<forall>k \<in> set track_ids. k < next_id s"
      using ok by (simp add: tracker_ok_def track_ids_def)
    ultimately show "fst p \<notin> set track_ids" by auto
  qed
  have new_same: "new' = new"
  proof (rule nth_equalityI)
    show "length new' = length new" by (rule lnew)
  next
    fix i assume i: "i < length new'"
    then have i': "i < length new" using lnew by simp
    have j: "n + i < length (tracks s2)" using i' new(1) len1 by (simp add: n_def)
    have e2: "tracks s2 ! (n + i) = new ! i" using new(1) len1 by (simp add: nth_append n_def)
    have "fst (new ! i) \<notin> set track_ids" using newkeys i' by simp
    then have "fst (tracks s2 ! (n + i)) \<notin> snd ` set (enumerate 0 track_ids)"
      using e2 by (metis map_snd_enumerate set_map)
    then have "tracks s3 ! (n + i) = tracks s2 ! (n + i)" using a(6) j by blast
    moreover have "new' ! i = tracks s3 ! (n + i)"
      using i len3 j by (simp add: new'_def)
    ultimately show "new' ! i = new ! i" using e2 by simp
  qed
  have "grows s s3"
    unfolding grows_def
    apply (rule exI [of _ old'], rule exI [of _ new'])
    using split ko ho new(2-4) new_same m(2-4) a(3-5) new(5,6)
    by (simp add: track_ids_def)
  then show ?thesis by (simp add: res)
qed


lemma create_all_grows:
  assumes ok: "tracker_ok s" and e: "tracks s = []"
  shows "grows s (create_all now dets s)"
proof -
  from create_unmatched_appends [OF ok, of now "{}" "enumerate 0 dets"]
  obtain new where new:
    "tracks (create_all now dets s) = tracks s @ new"
    "map fst new = map (\<lambda>i. next_id s + int i) [0..<length new]"
    "next_id (create_all now dets s) = next_id s + int (length new)"
    "\<forall>p \<in> set new. hits (snd p) = 1 \<and> age (snd p) = 0"
    "max_age (create_all now dets s) = max_age s"
    "max_history (create_all now dets s) = max_history s"
    unfolding create_all_eq [of now dets s 0] by blast
  show ?thesis
    unfolding grows_def
    apply (rule exI [of _ "[]"], rule exI [of _ new])
    using new e by simp
qed

lemma update_step:
  assumes ok: "tracker_ok s"
  shows "\<exists>s1. grows s s1 \<and> fst (update now dets s) = cleanup_tracks s1
     \<and> snd (update now dets s) = get_active_tracks (cleanup_tracks s1)"
proof (cases "tracks s = []")
  case True
  then show ?thesis
    using create_all_grows [OF ok True, of now dets] by (auto simp: update_def Let_def)
next
  case False
  then show ?thesis
    using associate_detections_grows [OF ok, of now dets] by (auto simp: update_def Let_def)
qed

lemma grows_cleanup:
  assumes ok: "tracker_ok s" and g: "grows s s1"
  shows "tracker_ok (cleanup_tracks s1)"
    and "next_id s \<le> next_id (cleanup_tracks s1)"
    and "new_ids s (cleanup_tracks s1) =
           map (\<lambda>i. next_id s + int i) [0..<nat (next_id (cleanup_tracks s1) - next_id s)]"
    and "\<forall>p \<in> set (tracks (cleanup_tracks s1)).
           (case map_of (tracks s) (fst p) of
              None \<Rightarrow> hits (snd p) = 1
            | Some t \<Rightarrow> hits (snd p) = hits t \<or> hits (snd p) = hits t + 1)"
proof -
  from g obtain old new where gr:
    "tracks s1 = old @ new" "map fst old = map fst (tracks s)"
    "\<forall>j < length old. hits (snd (old ! j)) = hits (snd (tracks s ! j))
                           \<or> hits (snd (old ! j)) = hits (snd (tracks s ! j)) + 1"
    "map fst new = map (\<lambda>i. next_id s + int i) [0..<length new]"
    "next_id s1 = next_id s + int (length new)"
    "\<forall>p \<in> set new. hits (snd p) = 1 \<and> age (snd p) = 0"
    "max_age s1 = max_age s" "max_history s1 = max_history s"
    unfolding grows_def by blast
  define keep where "keep = (\<lambda>p :: int \<times> track. \<not> age (snd p) > max_age s1)"
  have cl: "tracks (cleanup_tracks s1) = filter keep old @ filter keep new"
    by (simp add: cleanup_tracks_def gr(1) keep_def case_prod_unfold)
  have ma: "0 \<le> max_age s1" using ok gr(7) by (simp add: tracker_ok_def)
  have fn: "filter keep new = new"
    using gr(6) ma by (auto simp: keep_def filter_id_conv)
  have cl': "tracks (cleanup_tracks s1) = filter keep old @ new" using cl fn by simp
  have nid: "next_id (cleanup_tracks s1) = next_id s + int (length new)"
    by (simp add: cleanup_tracks_def gr(5))
  have dist: "distinct (map fst (tracks s))" and below: "\<forall>k \<in> set (map fst (tracks s)). k < next_id s"
    using ok by (simp_all add: tracker_ok_def)
  have oldk: "set (map fst (filter keep old)) \<subseteq> set (map fst (tracks s))"
    using gr(2) by (metis filter_is_subset image_mono list.set_map)
  have dold: "distinct (map fst (filter keep old))"
    using dist gr(2) by (metis distinct_map_filter)
  have dnew: "distinct (map fst new)"
    unfolding gr(4) by (simp add: distinct_map inj_on_def)
  have newk: "\<forall>k \<in> set (map fst new). next_id s \<le> k \<and> k < next_id s + int (length new)"
    unfolding gr(4) by auto
  have oldlt: "\<forall>k \<in> set (map fst (filter keep old)). k < next_id s"
    using oldk below by blast
  have disj: "set (map fst (filter keep old)) \<inter> set (map fst new) = {}"
    using oldlt newk by fastforce
  have keys: "map fst (tracks (cleanup_tracks s1)) = map fst (filter keep old) @ map fst new"
    by (simp add: cl')
  have dall: "distinct (map fst (tracks (cleanup_tracks s1)))"
    unfolding keys using dold dnew disj by simp
  have lall: "\<forall>k \<in> set (map fst (tracks (cleanup_tracks s1))). k < next_id (cleanup_tracks s1)"
    unfolding keys nid using oldlt newk by fastforce
  have "max_age (cleanup_tracks s1) = max_age s1" by (simp add: cleanup_tracks_def)
  then show "tracker_ok (cleanup_tracks s1)"
    unfolding tracker_ok_def using dall lall ma by simp
  show "next_id s \<le> next_id (cleanup_tracks s1)" by (simp add: nid)
  have f1: "filter (\<lambda>k. k \<notin> set (map fst (tracks s))) (map fst (filter keep old)) = []"
    unfolding filter_empty_conv using oldk by blast
  have f2: "filter (\<lambda>k. k \<notin> set (map fst (tracks s))) (map fst new) = map fst new"
    unfolding filter_id_conv using newk below by fastforce
  show "new_ids s (cleanup_tracks s1) =
           map (\<lambda>i. next_id s + int i) [0..<nat (next_id (cleanup_tracks s1) - next_id s)]"
    unfolding new_ids_def cl' nid using f1 f2 gr(4) by simp
  show "\<forall>p \<in> set (tracks (cleanup_tracks s1)).
           (case map_of (tracks s) (fst p) of
              None \<Rightarrow> hits (snd p) = 1
            | Some t \<Rightarrow> hits (snd p) = hits t \<or> hits (snd p) = hits t + 1)"
  proof
    fix p assume "p \<in> set (tracks (cleanup_tracks s1))"
    then consider (o) "p \<in> set old" | (n) "p \<in> set new" using cl' by auto
    then show "case map_of (tracks s) (fst p) of
              None \<Rightarrow> hits (snd p) = 1
            | Some t \<Rightarrow> hits (snd p) = hits t \<or> hits (snd p) = hits t + 1"
    proof cases
      case o
      then obtain j where j: "j < length old" "old ! j = p" by (metis in_set_conv_nth)
      have lj: "j < length (tracks s)" using j(1) gr(2) by (metis length_map)
      have "fst p = fst (tracks s ! j)" using j lj gr(2) by (metis nth_map)
      then have "map_of (tracks s) (fst p) = Some (snd (tracks s ! j))"
        using dist lj by (metis map_of_eq_Some_iff nth_mem prod.collapse)
      then show ?thesis using gr(3) j by auto
    next
      case n
      then have "fst p \<in> set (map fst new)" by simp
      then have "next_id s \<le> fst p" using newk by blast
      then have "fst p \<notin> fst ` set (tracks s)" using below by force
      then have "map_of (tracks s) (fst p) = None" by (simp add: map_of_eq_None_iff)
      then show ?thesis using gr(6) n by simp
    qed
  qed
qed

lemma init_tracker_ok: "tracker_ok init_tracker"
  by (simp add: tracker_ok_def init_tracker_def)

lemma update_ok: "tracker_ok s \<Longrightarrow> tracker_ok (fst (update now dets s))"
  using update_step [of s now dets] grows_cleanup(1) by metis

lemma run_tracker_ok: "tracker_ok s \<Longrightarrow> tracker_ok (run_tracker calls s)"
  by (induction calls s rule: run_tracker.induct) (simp_all add: update_ok)




lemma created_ids_enum:
  assumes "tracker_ok s"
  shows "created_ids calls s =
     map (\<lambda>i. next_id s + int i) [0..<nat (next_id (run_tracker calls s) - next_id s)]
     \<and> next_id s \<le> next_id (run_tracker calls s)"
  using assms
proof (induction calls s rule: created_ids.induct)
  case (1 s)
  then show ?case by simp
next
  case (2 now dets rest s)
  define s' where "s' = fst (update now dets s)"
  obtain s1 where s1: "grows s s1" "s' = cleanup_tracks s1"
    using update_step [OF "2.prems", of now dets] s'_def by auto
  have ok': "tracker_ok s'" and le: "next_id s \<le> next_id s'"
    and ni: "new_ids s s' = map (\<lambda>i. next_id s + int i) [0..<nat (next_id s' - next_id s)]"
    using grows_cleanup(1-3) [OF "2.prems" s1(1)] s1(2) by simp_all
  have ih: "created_ids rest s' =
     map (\<lambda>i. next_id s' + int i) [0..<nat (next_id (run_tracker rest s') - next_id s')]"
    and le': "next_id s' \<le> next_id (run_tracker rest s')"
    using "2.IH" [of s', OF _ ok'] by (simp_all add: s'_def)
  define a where "a = nat (next_id s' - next_id s)"
  define b where "b = nat (next_id (run_tracker rest s') - next_id s')"
  have ab: "nat (next_id (run_tracker rest s') - next_id s) = a + b"
    using le le' by (simp add: a_def b_def)
  have na: "next_id s' = next_id s + int a" using le by (simp add: a_def)
  have "map (\<lambda>i. next_id s + int i) [0..<a + b] =
        map (\<lambda>i. next_id s + int i) [0..<a] @ map (\<lambda>i. next_id s + int a + int i) [0..<b]"
  proof -
    have "[a..<a + b] = map (\<lambda>i. i + a) [0..<b]"
      by (simp add: map_add_upt add.commute)
    then have "map (\<lambda>i. next_id s + int i) [a..<a + b] =
        map (\<lambda>i. next_id s + int a + int i) [0..<b]"
      by (simp add: comp_def add.commute add.left_commute)
    moreover have "[0..<a + b] = [0..<a] @ [a..<a + b]"
      using upt_add_eq_append [of 0 a b] by simp
    ultimately show ?thesis by simp
  qed
  note split = this
  have ih1: "created_ids rest s' = map (\<lambda>i. next_id s' + int i) [0..<b]"
    using ih by (simp add: b_def)
  have ih2: "created_ids rest s' = map (\<lambda>i. next_id s + int a + int i) [0..<b]"
    using ih1 by (simp only: na)
  have ni': "new_ids s s' = map (\<lambda>i. next_id s + int i) [0..<a]"
    using ni by (simp add: a_def)
  have unf: "created_ids ((now, dets) # rest) s = new_ids s s' @ created_ids rest s'"
    by (simp add: s'_def Let_def)
  have run: "run_tracker ((now, dets) # rest) s = run_tracker rest s'"
    by (simp add: s'_def)
  have "created_ids ((now, dets) # rest) s =
     map (\<lambda>i. next_id s + int i) [0..<nat (next_id (run_tracker ((now, dets) # rest) s) - next_id s)]"
    unfolding unf run ab split ni' ih2 by (rule refl)
  moreover have "next_id s \<le> next_id (run_tracker ((now, dets) # rest) s)"
    using le le' by (simp add: s'_def [symmetric])
  ultimately show ?case by simp
qed

text \<open>
  Claim C6: over every run of \<^verbatim>\<open>update\<close> calls from the initial tracker, the ids
  given to new tracks are strictly increasing in the order of creation, so no id is
  used twice, also after its track was deleted; they are 1, 2, 3, ... without gaps.
\<close>

theorem track_ids_strictly_increasing:
  "sorted_wrt (<) (created_ids calls init_tracker)
   \<and> distinct (created_ids calls init_tracker)
   \<and> created_ids calls init_tracker =
       map (\<lambda>i. 1 + int i) [0..<length (created_ids calls init_tracker)]"
proof -
  define n where "n = nat (next_id (run_tracker calls init_tracker) - 1)"
  have e: "created_ids calls init_tracker = map (\<lambda>i. 1 + int i) [0..<n]"
    using created_ids_enum [OF init_tracker_ok, of calls] by (simp add: n_def init_tracker_def)
  have s: "sorted_wrt (<) (map (\<lambda>i. 1 + int i) [0..<n])"
    by (simp add: sorted_wrt_map)
  have d: "distinct (map (\<lambda>i. 1 + int i) [0..<n])"
    by (simp add: distinct_map inj_on_def)
  show ?thesis using s d by (simp add: e)
qed

lemma cost_accepted_iou: "cost_accepted det trk \<longleftrightarrow> calculate_iou (bbox det) (bbox trk) > 3 / 10"
  by (simp add: cost_accepted_def)

lemma flat_costs_sound:
  "\<forall>(c, i, j) \<in> set (sort (flat_costs dets trks)).
     i < length dets \<and> j < length trks
     \<and> c = 1 - calculate_iou (bbox (dets ! i)) (bbox (snd (trks ! j)))"
  by (auto simp: flat_costs_def in_set_enumerate_eq)

lemma update_one_bbox [simp]: "bbox (update_one now cap det t) = bbox det"
  by (simp add: update_one_def Let_def)

lemma match_loop_matched:
  assumes "distinct (map fst orig)"
    and "\<forall>(c, i, j) \<in> set costs. i < length dets \<and> j < length orig
           \<and> c = 1 - calculate_iou (bbox (dets ! i)) (bbox (snd (orig ! j)))"
    and "map fst (tracks s) = map fst orig"
    and "max_history s = cap"
    and "\<forall>j < length orig.
           (if j \<in> mt
            then \<exists>i < length dets.
                   tracks s ! j = (fst (orig ! j), update_one now cap (dets ! i) (snd (orig ! j)))
                   \<and> cost_accepted (dets ! i) (snd (orig ! j))
            else tracks s ! j = orig ! j)"
    and "mt \<subseteq> {..<length orig}"
    and "match_loop now dets (map fst orig) costs (s, mt, md) = (s1, mt1, md1)"
  shows "(\<forall>j < length orig.
           (if j \<in> mt1
            then \<exists>i < length dets.
                   tracks s1 ! j = (fst (orig ! j), update_one now cap (dets ! i) (snd (orig ! j)))
                   \<and> cost_accepted (dets ! i) (snd (orig ! j))
            else tracks s1 ! j = orig ! j))
     \<and> mt1 \<subseteq> {..<length orig}"
  using assms(2-7)
proof (induction costs arbitrary: s mt md)
  case Nil
  have "s1 = s" "mt1 = mt" using Nil.prems(6) by simp_all
  then show ?case using Nil.prems(4,5) by blast
next
  case (Cons c costs)
  obtain cost di tj where c: "c = (cost, di, tj)" by (cases c) auto
  have rest: "\<forall>(c, i, j) \<in> set costs. i < length dets \<and> j < length orig
           \<and> c = 1 - calculate_iou (bbox (dets ! i)) (bbox (snd (orig ! j)))"
    using Cons.prems(1) by simp
  have here: "di < length dets" "tj < length orig"
    "cost = 1 - calculate_iou (bbox (dets ! di)) (bbox (snd (orig ! tj)))"
    using Cons.prems(1) c by simp_all
  show ?case
  proof (cases "di \<in> md \<or> tj \<in> mt \<or> \<not> cost < 0.7")
    case True
    then have "match_loop now dets (map fst orig) costs (s, mt, md) = (s1, mt1, md1)"
      using Cons.prems(6) c by (auto split: if_splits)
    from Cons.IH [OF rest Cons.prems(2,3,4,5) this] show ?thesis .
  next
    case False
    define s' where "s' = update_track now (map fst orig ! tj) (dets ! di) s"
    have run: "match_loop now dets (map fst orig) costs (s', insert tj mt, insert di md) = (s1, mt1, md1)"
      using False Cons.prems(6) c by (simp add: s'_def)
    have len: "length (tracks s) = length orig" using Cons.prems(2) by (metis length_map)
    have d: "distinct (map fst (tracks s))" using assms(1) Cons.prems(2) by simp
    have keys: "map fst (tracks s') = map fst orig" using Cons.prems(2) by (simp add: s'_def)
    have cap: "max_history s' = cap" using Cons.prems(3) by (simp add: s'_def)
    have nth: "\<And>j. j < length orig \<Longrightarrow> tracks s' ! j =
        (if j = tj then (fst (tracks s ! j), update_one now cap (dets ! di) (snd (tracks s ! j)))
         else tracks s ! j)"
      using update_track_nth [OF d, of tj _ now "dets ! di"] here(2) len Cons.prems(2,3)
      by (simp add: s'_def)
    have unm: "tracks s ! tj = orig ! tj" using Cons.prems(4) here(2) False by simp
    have iou: "cost_accepted (dets ! di) (snd (orig ! tj))"
      using False here(3) by (simp add: cost_accepted_def)
    have inv': "\<forall>j < length orig.
           (if j \<in> insert tj mt
            then \<exists>i < length dets.
                   tracks s' ! j = (fst (orig ! j), update_one now cap (dets ! i) (snd (orig ! j)))
                   \<and> cost_accepted (dets ! i) (snd (orig ! j))
            else tracks s' ! j = orig ! j)"
    proof (intro allI impI)
      fix j assume j: "j < length orig"
      show "if j \<in> insert tj mt
            then \<exists>i < length dets.
                   tracks s' ! j = (fst (orig ! j), update_one now cap (dets ! i) (snd (orig ! j)))
                   \<and> cost_accepted (dets ! i) (snd (orig ! j))
            else tracks s' ! j = orig ! j"
      proof (cases "j = tj")
        case True
        have "tracks s' ! j = (fst (orig ! j), update_one now cap (dets ! di) (snd (orig ! j)))"
          using nth [OF j] True unm by simp
        then show ?thesis using True here(1) iou by auto
      next
        case ne: False
        then have "tracks s' ! j = tracks s ! j" using nth [OF j] by simp
        then show ?thesis using ne Cons.prems(4) j by simp
      qed
    qed
    have sub': "insert tj mt \<subseteq> {..<length orig}" using Cons.prems(5) here(2) by simp
    from Cons.IH [OF rest keys cap inv' sub' run] show ?thesis .
  qed
qed

lemma map_entry_age_bbox:
  "map (\<lambda>p. bbox (snd p)) (AList.map_entry k (\<lambda>trk. trk\<lparr>age := age trk + 1\<rparr>) al)
     = map (\<lambda>p. bbox (snd p)) al"
  by (induction al) auto

lemma age_unmatched_bbox:
  "map (\<lambda>p. bbox (snd p)) (tracks (age_unmatched mt xs s)) = map (\<lambda>p. bbox (snd p)) (tracks s)"
  by (induction mt xs s rule: age_unmatched.induct) (simp_all add: map_entry_age_bbox)

lemma map_eq_nth: "map f xs = map f ys \<Longrightarrow> j < length ys \<Longrightarrow> f (xs ! j) = f (ys ! j)"
  by (metis length_map nth_map)

lemma associate_detections_matched:
  assumes ok: "tracker_ok s" and ne: "tracks s \<noteq> []"
  shows "matched_tracks now dets s \<subseteq> {..<length (tracks s)}
     \<and> (\<forall>j < length (tracks s).
          j < length (tracks (associate_detections now dets s))
          \<and> fst (tracks (associate_detections now dets s) ! j) = fst (tracks s ! j)
          \<and> hits (snd (tracks (associate_detections now dets s) ! j)) =
              hits (snd (tracks s ! j)) + (if j \<in> matched_tracks now dets s then 1 else 0)
          \<and> (j \<in> matched_tracks now dets s \<longrightarrow>
               (\<exists>i < length dets.
                  cost_accepted (dets ! i) (snd (tracks s ! j))
                  \<and> bbox (snd (tracks (associate_detections now dets s) ! j)) = bbox (dets ! i))))"
proof (cases "dets = []")
  case True
  then show ?thesis
    by (simp add: matched_tracks_def associate_detections_def case_prod_unfold)
next
  case False
  define orig where "orig = tracks s"
  define costs where "costs = sort (flat_costs dets orig)"
  obtain s1 mt md where ml: "match_loop now dets (map fst orig) costs (s, {}, {}) = (s1, mt, md)"
    by (metis prod_cases3)
  define s2 where "s2 = create_unmatched now md (enumerate 0 dets) s1"
  define s3 where "s3 = age_unmatched mt (enumerate 0 (map fst orig)) s2"
  have res: "associate_detections now dets s = s3"
    using False ml
    by (simp add: associate_detections_def Let_def orig_def [symmetric] costs_def [symmetric]
        s2_def s3_def)
  have mt: "matched_tracks now dets s = mt"
    using False ne ml by (simp add: matched_tracks_def orig_def [symmetric] costs_def [symmetric])
  have d: "distinct (map fst orig)" using ok by (simp add: tracker_ok_def orig_def)
  have cs: "\<forall>(c, i, j) \<in> set costs. i < length dets \<and> j < length orig
           \<and> c = 1 - calculate_iou (bbox (dets ! i)) (bbox (snd (orig ! j)))"
    unfolding costs_def by (rule flat_costs_sound)
  have i0: "\<forall>j < length orig.
           (if j \<in> {}
            then \<exists>i < length dets.
                   tracks s ! j = (fst (orig ! j), update_one now (max_history s) (dets ! i) (snd (orig ! j)))
                   \<and> cost_accepted (dets ! i) (snd (orig ! j))
            else tracks s ! j = orig ! j)"
    by (simp add: orig_def)
  have k0: "map fst (tracks s) = map fst orig" by (simp add: orig_def)
  have e0: "{} \<subseteq> {..<length orig}" by simp
  note mm = match_loop_matched [OF d cs k0 refl i0 e0 ml]
  have m: "\<forall>j < length orig.
           (if j \<in> mt
            then \<exists>i < length dets.
                   tracks s1 ! j = (fst (orig ! j), update_one now (max_history s) (dets ! i) (snd (orig ! j)))
                   \<and> cost_accepted (dets ! i) (snd (orig ! j))
            else tracks s1 ! j = orig ! j)"
    and sub: "mt \<subseteq> {..<length orig}"
    using mm by blast+
  have cs': "\<forall>(c, i, j) \<in> set costs. j < length (map fst orig)" using cs by auto
  have h0: "\<forall>j < length (map fst orig).
      hits (snd (tracks s ! j)) = hits (snd (tracks s ! j)) + (if j \<in> {} then 1 else 0)"
    by simp
  from match_loop_inv [OF d cs' _ h0 ml]
  have k1: "map fst (tracks s1) = map fst orig" "next_id s1 = next_id s" "max_age s1 = max_age s"
    by (simp_all add: orig_def)
  have len1: "length (tracks s1) = length orig" using k1(1) by (metis length_map)
  have ok1: "tracker_ok s1" using ok k1 by (simp add: tracker_ok_def orig_def)
  from create_unmatched_appends [OF ok1, of now md "enumerate 0 dets"]
  obtain new where new: "tracks s2 = tracks s1 @ new" unfolding s2_def by blast
  have a: "map fst (tracks s3) = map fst (tracks s2)"
    "map (\<lambda>p. hits (snd p)) (tracks s3) = map (\<lambda>p. hits (snd p)) (tracks s2)"
    using age_unmatched_keeps [of mt "enumerate 0 (map fst orig)" s2] by (simp_all add: s3_def)
  have b: "map (\<lambda>p. bbox (snd p)) (tracks s3) = map (\<lambda>p. bbox (snd p)) (tracks s2)"
    unfolding s3_def by (rule age_unmatched_bbox)
  have len3: "length (tracks s3) = length (tracks s2)" using a(1) by (metis length_map)
  have per: "\<forall>j < length orig.
          j < length (tracks s3)
          \<and> fst (tracks s3 ! j) = fst (orig ! j)
          \<and> hits (snd (tracks s3 ! j)) = hits (snd (orig ! j)) + (if j \<in> mt then 1 else 0)
          \<and> (j \<in> mt \<longrightarrow>
               (\<exists>i < length dets.
                  cost_accepted (dets ! i) (snd (orig ! j))
                  \<and> bbox (snd (tracks s3 ! j)) = bbox (dets ! i)))"
  proof (intro allI impI)
    fix j assume j: "j < length orig"
    have j2: "j < length (tracks s2)" using j len1 new by simp
    have e2: "tracks s2 ! j = tracks s1 ! j" using j len1 new by (simp add: nth_append)
    have f3: "fst (tracks s3 ! j) = fst (tracks s2 ! j)" using map_eq_nth [OF a(1) j2] .
    have h3: "hits (snd (tracks s3 ! j)) = hits (snd (tracks s2 ! j))" using map_eq_nth [OF a(2) j2] .
    have b3: "bbox (snd (tracks s3 ! j)) = bbox (snd (tracks s2 ! j))" using map_eq_nth [OF b j2] .
    show "j < length (tracks s3)
          \<and> fst (tracks s3 ! j) = fst (orig ! j)
          \<and> hits (snd (tracks s3 ! j)) = hits (snd (orig ! j)) + (if j \<in> mt then 1 else 0)
          \<and> (j \<in> mt \<longrightarrow>
               (\<exists>i < length dets.
                  cost_accepted (dets ! i) (snd (orig ! j))
                  \<and> bbox (snd (tracks s3 ! j)) = bbox (dets ! i)))"
    proof (cases "j \<in> mt")
      case True
      from m j have "if j \<in> mt
            then \<exists>i < length dets.
                   tracks s1 ! j = (fst (orig ! j), update_one now (max_history s) (dets ! i) (snd (orig ! j)))
                   \<and> cost_accepted (dets ! i) (snd (orig ! j))
            else tracks s1 ! j = orig ! j" by blast
      then have "\<exists>i < length dets.
                   tracks s1 ! j = (fst (orig ! j), update_one now (max_history s) (dets ! i) (snd (orig ! j)))
                   \<and> cost_accepted (dets ! i) (snd (orig ! j))"
        using True by (simp only: if_True)
      then obtain i where i: "i < length dets"
        "tracks s1 ! j = (fst (orig ! j), update_one now (max_history s) (dets ! i) (snd (orig ! j)))"
        "cost_accepted (dets ! i) (snd (orig ! j))"
        by blast
      show ?thesis using True i j2 len3 f3 h3 b3 e2 by auto
    next
      case False
      then have "tracks s1 ! j = orig ! j" using m j by simp
      then show ?thesis using False j2 len3 f3 h3 e2 by simp
    qed
  qed
  show ?thesis unfolding res mt using sub per by (simp add: orig_def)
qed


lemma grows_distinct:
  assumes ok: "tracker_ok s" and g: "grows s s1"
  shows "distinct (map fst (tracks s1))"
    and "\<forall>k \<in> fst ` set (tracks s1). k \<in> fst ` set (tracks s) \<or> next_id s \<le> k"
proof -
  from g obtain old new where gr:
    "tracks s1 = old @ new" "map fst old = map fst (tracks s)"
    "map fst new = map (\<lambda>i. next_id s + int i) [0..<length new]"
    unfolding grows_def by blast
  have dist: "distinct (map fst (tracks s))" and below: "\<forall>k \<in> set (map fst (tracks s)). k < next_id s"
    using ok by (simp_all add: tracker_ok_def)
  have dnew: "distinct (map fst new)"
    unfolding gr(3) by (simp add: distinct_map inj_on_def)
  have newk: "\<forall>k \<in> set (map fst new). next_id s \<le> k" unfolding gr(3) by auto
  have disj: "set (map fst old) \<inter> set (map fst new) = {}"
    unfolding gr(2) using below newk by fastforce
  have keys: "map fst (tracks s1) = map fst old @ map fst new" by (simp add: gr(1))
  show "distinct (map fst (tracks s1))"
    unfolding keys using dist dnew disj gr(2) by simp
  have "set (map fst (tracks s1)) = set (map fst (tracks s)) \<union> set (map fst new)"
    unfolding keys gr(2) by simp
  then show "\<forall>k \<in> fst ` set (tracks s1). k \<in> fst ` set (tracks s) \<or> next_id s \<le> k"
    using newk by auto
qed

lemma matched_tracks_bound:
  assumes "tracker_ok s"
  shows "matched_tracks now dets s \<subseteq> {..<length (tracks s)}"
proof (cases "tracks s = []")
  case True
  then show ?thesis by (simp add: matched_tracks_def)
next
  case False
  then show ?thesis using associate_detections_matched [OF assms False, of now dets] by blast
qed

lemma update_matched:
  assumes ok: "tracker_ok s" and j: "j < length (tracks s)"
    and m: "map_of (tracks (fst (update now dets s))) (fst (tracks s ! j)) = Some t'"
  shows "hits t' = hits (snd (tracks s ! j)) + (if j \<in> matched_tracks now dets s then 1 else 0)"
    and "j \<in> matched_tracks now dets s \<Longrightarrow>
           \<exists>i < length dets. cost_accepted (dets ! i) (snd (tracks s ! j)) \<and> bbox t' = bbox (dets ! i)"
proof -
  have ne: "tracks s \<noteq> []" using j by auto
  define s3 where "s3 = associate_detections now dets s"
  have u: "fst (update now dets s) = cleanup_tracks s3"
    using ne by (simp add: update_def Let_def s3_def)
  have d3: "distinct (map fst (tracks s3))"
    unfolding s3_def by (rule grows_distinct(1) [OF ok associate_detections_grows [OF ok]])
  have per: "j < length (tracks s3)" "fst (tracks s3 ! j) = fst (tracks s ! j)"
    "hits (snd (tracks s3 ! j)) = hits (snd (tracks s ! j)) + (if j \<in> matched_tracks now dets s then 1 else 0)"
    "j \<in> matched_tracks now dets s \<longrightarrow>
       (\<exists>i < length dets. cost_accepted (dets ! i) (snd (tracks s ! j))
          \<and> bbox (snd (tracks s3 ! j)) = bbox (dets ! i))"
    using associate_detections_matched [OF ok ne, of now dets] j unfolding s3_def by blast+
  have "(fst (tracks s ! j), t') \<in> set (tracks (cleanup_tracks s3))"
    using m u by (simp add: map_of_SomeD)
  then have in1: "(fst (tracks s ! j), t') \<in> set (tracks s3)"
    by (simp add: cleanup_tracks_def)
  have in2: "(fst (tracks s ! j), snd (tracks s3 ! j)) \<in> set (tracks s3)"
    using per(1,2) by (metis nth_mem prod.collapse)
  have t: "t' = snd (tracks s3 ! j)"
    using d3 in1 in2 by (rule eq_key_imp_eq_value)
  show "hits t' = hits (snd (tracks s ! j)) + (if j \<in> matched_tracks now dets s then 1 else 0)"
    unfolding t by (rule per(3))
  show "j \<in> matched_tracks now dets s \<Longrightarrow>
           \<exists>i < length dets. cost_accepted (dets ! i) (snd (tracks s ! j)) \<and> bbox t' = bbox (dets ! i)"
    unfolding t using per(4) by blast
qed

lemma update_keys:
  assumes ok: "tracker_ok s" and k: "k \<in> fst ` set (tracks (fst (update now dets s)))"
  shows "k \<in> fst ` set (tracks s) \<or> next_id s \<le> k"
proof -
  obtain s1 where s1: "grows s s1" "fst (update now dets s) = cleanup_tracks s1"
    using update_step [OF ok, of now dets] by auto
  have "k \<in> fst ` set (tracks s1)"
    using k unfolding s1(2) by (auto simp: cleanup_tracks_def)
  then show ?thesis using grows_distinct(2) [OF ok s1(1)] by blast
qed

lemma update_next_id:
  assumes ok: "tracker_ok s"
  shows "next_id s \<le> next_id (fst (update now dets s))"
proof -
  obtain s1 where s1: "grows s s1" "fst (update now dets s) = cleanup_tracks s1"
    using update_step [OF ok, of now dets] by auto
  show ?thesis unfolding s1(2) by (rule grows_cleanup(2) [OF ok s1(1)])
qed

lemma run_keys:
  "tracker_ok s \<Longrightarrow> k \<in> fst ` set (tracks (run_tracker calls s)) \<Longrightarrow>
   k \<in> fst ` set (tracks s) \<or> next_id s \<le> k"
proof (induction calls s rule: run_tracker.induct)
  case (1 s)
  then show ?case by simp
next
  case (2 now dets rest s)
  define s' where "s' = fst (update now dets s)"
  have ok': "tracker_ok s'" unfolding s'_def by (rule update_ok [OF "2.prems"(1)])
  have "k \<in> fst ` set (tracks s') \<or> next_id s' \<le> k"
    using "2.IH" [OF ok' [unfolded s'_def]] "2.prems"(2) by (simp add: s'_def)
  then show ?case
    using update_keys [OF "2.prems"(1), of k now dets] update_next_id [OF "2.prems"(1), of now dets]
    unfolding s'_def by fastforce
qed

lemma hits_of_live:
  "tracker_ok s \<Longrightarrow> (k, t) \<in> set (tracks s) \<Longrightarrow> hits_of s k = hits t"
  by (simp add: hits_of_def tracker_ok_def)

lemma hits_of_absent: "k \<notin> fst ` set (tracks s) \<Longrightarrow> hits_of s k = 0"
proof -
  assume "k \<notin> fst ` set (tracks s)"
  then have "map_of (tracks s) k = None" by (simp add: map_of_eq_None_iff)
  then show ?thesis by (simp add: hits_of_def)
qed

lemma hits_of_step:
  assumes ok: "tracker_ok s" and k: "k \<in> fst ` set (tracks (fst (update now dets s)))"
  shows "hits_of (fst (update now dets s)) k =
           hits_of s k + (if seen_in_call k now dets s then 1 else 0)"
proof -
  define s' where "s' = fst (update now dets s)"
  have ok': "tracker_ok s'" unfolding s'_def by (rule update_ok [OF ok])
  obtain t' where t': "(k, t') \<in> set (tracks s')" using k unfolding s'_def by auto
  have m': "map_of (tracks s') k = Some t'"
    using ok' t' by (simp add: tracker_ok_def)
  have h': "hits_of s' k = hits t'" by (rule hits_of_live [OF ok' t'])
  have d: "distinct (map fst (tracks s))" using ok by (simp add: tracker_ok_def)
  show ?thesis
  proof (cases "k \<in> fst ` set (tracks s)")
    case True
    then obtain j where j: "j < length (tracks s)" "fst (tracks s ! j) = k"
      by (metis (no_types, lifting) image_iff in_set_conv_nth)
    have "(k, snd (tracks s ! j)) \<in> set (tracks s)" using j by (metis nth_mem prod.collapse)
    then have h: "hits_of s k = hits (snd (tracks s ! j))" by (rule hits_of_live [OF ok])
    have nn: "k \<notin> set (new_ids s s')" using True by (simp add: new_ids_def)
    have uniq: "\<And>j'. j' < length (tracks s) \<Longrightarrow> fst (tracks s ! j') = k \<Longrightarrow> j' = j"
    proof -
      fix j' assume a: "j' < length (tracks s)" "fst (tracks s ! j') = k"
      have "map fst (tracks s) ! j' = map fst (tracks s) ! j" using a j by simp
      moreover have "j' < length (map fst (tracks s))" "j < length (map fst (tracks s))"
        using a j by simp_all
      ultimately show "j' = j" using d nth_eq_iff_index_eq by blast
    qed
    have seen: "seen_in_call k now dets s \<longleftrightarrow> j \<in> matched_tracks now dets s"
      unfolding seen_in_call_def s'_def [symmetric] using nn uniq j by blast
    have "hits t' = hits (snd (tracks s ! j)) + (if j \<in> matched_tracks now dets s then 1 else 0)"
      using update_matched(1) [OF ok j(1), of now dets t'] m' j(2) by (simp add: s'_def)
    then show ?thesis unfolding s'_def [symmetric] h' h seen .
  next
    case False
    have "k \<in> set (new_ids s s')" using False t' by (force simp: new_ids_def)
    then have seen: "seen_in_call k now dets s" by (simp add: seen_in_call_def s'_def)
    obtain s1 where s1: "grows s s1" "s' = cleanup_tracks s1"
      using update_step [OF ok, of now dets] s'_def by auto
    have "map_of (tracks s) k = None" using False by (simp add: map_of_eq_None_iff)
    then have "hits t' = 1"
      using grows_cleanup(4) [OF ok s1(1)] t' unfolding s1(2) [symmetric] by fastforce
    then show ?thesis
      unfolding s'_def [symmetric] h' using seen hits_of_absent [OF False] by simp
  qed
qed

lemma not_seen_absent:
  assumes "k \<notin> fst ` set (tracks s)" "k \<notin> fst ` set (tracks (fst (update now dets s)))"
  shows "\<not> seen_in_call k now dets s"
  using assms by (auto simp: seen_in_call_def new_ids_def)

lemma run_hits:
  "tracker_ok s \<Longrightarrow> k \<in> fst ` set (tracks (run_tracker calls s)) \<Longrightarrow>
   hits_of (run_tracker calls s) k = hits_of s k + calls_seen k calls s"
proof (induction calls s rule: run_tracker.induct)
  case (1 s)
  then show ?case by simp
next
  case (2 now dets rest s)
  define s' where "s' = fst (update now dets s)"
  have ok': "tracker_ok s'" unfolding s'_def by (rule update_ok [OF "2.prems"(1)])
  have kf: "k \<in> fst ` set (tracks (run_tracker rest s'))" using "2.prems"(2) by (simp add: s'_def)
  have ih: "hits_of (run_tracker rest s') k = hits_of s' k + calls_seen k rest s'"
    using "2.IH" [OF ok' [unfolded s'_def]] kf by (simp add: s'_def)
  have step: "hits_of s' k = hits_of s k + (if seen_in_call k now dets s then 1 else 0)"
  proof (cases "k \<in> fst ` set (tracks s')")
    case True
    then show ?thesis unfolding s'_def by (rule hits_of_step [OF "2.prems"(1)])
  next
    case False
    then have "next_id s' \<le> k" using run_keys [OF ok' kf] by blast
    then have "next_id s \<le> k"
      using update_next_id [OF "2.prems"(1), of now dets] by (simp add: s'_def)
    then have ns: "k \<notin> fst ` set (tracks s)"
      using "2.prems"(1) by (force simp: tracker_ok_def)
    have "\<not> seen_in_call k now dets s"
      using not_seen_absent [OF ns] False by (simp add: s'_def)
    then show ?thesis using hits_of_absent [OF ns] hits_of_absent [OF False] by simp
  qed
  show ?case using ih step by (simp add: s'_def)
qed

lemma run_tracker_append:
  "run_tracker (calls @ [(now, dets)]) s = fst (update now dets (run_tracker calls s))"
  by (induction calls s rule: run_tracker.induct) simp_all

lemma hits_count_calls:
  assumes "p \<in> set (tracks (fst (update now dets (run_tracker calls init_tracker))))"
  shows "hits (snd p) = calls_seen (fst p) (calls @ [(now, dets)]) init_tracker"
proof -
  define s' where "s' = run_tracker (calls @ [(now, dets)]) init_tracker"
  have e: "s' = fst (update now dets (run_tracker calls init_tracker))"
    by (simp add: s'_def run_tracker_append)
  have ok': "tracker_ok s'" unfolding s'_def by (rule run_tracker_ok [OF init_tracker_ok])
  have p: "(fst p, snd p) \<in> set (tracks s')" using assms e by simp
  then have k: "fst p \<in> fst ` set (tracks s')" by (metis fst_conv image_eqI)
  have "hits_of s' (fst p) = hits_of init_tracker (fst p) + calls_seen (fst p) (calls @ [(now, dets)]) init_tracker"
    unfolding s'_def by (rule run_hits [OF init_tracker_ok k [unfolded s'_def]])
  moreover have "hits_of init_tracker (fst p) = 0" by (simp add: hits_of_def init_tracker_def)
  moreover have "hits_of s' (fst p) = hits (snd p)" by (rule hits_of_live [OF ok' p])
  ultimately show ?thesis by simp
qed


text \<open>
  Claim C5: after every run of calls, \<^verbatim>\<open>update\<close> returns exactly the live tracks
  with hits \<ge> 3, in dict order. A track that the call created has hits = 1 and is
  not returned; a track that existed before the call and is still live has its hits
  increased by exactly one when the call matched it with a detection (one whose IoU
  with the track's box is above 0.3, and whose box the track then has) and unchanged
  otherwise. So the hits of a live track are the number of calls that gave it a
  detection, its creation included, and a track is returned exactly when it is live
  and at least 3 distinct calls did.
\<close>

theorem update_returns_tracks_with_three_hits:
  "snd (update now dets (run_tracker calls init_tracker)) =
     map snd (filter (\<lambda>p. hits (snd p) \<ge> 3)
                (tracks (fst (update now dets (run_tracker calls init_tracker)))))
   \<and> (\<forall>p \<in> set (tracks (fst (update now dets (run_tracker calls init_tracker)))).
        (case map_of (tracks (run_tracker calls init_tracker)) (fst p) of
           None \<Rightarrow> hits (snd p) = 1 \<and> snd p \<notin> set (snd (update now dets (run_tracker calls init_tracker)))
         | Some t \<Rightarrow> hits (snd p) = hits t \<or> hits (snd p) = hits t + 1))
   \<and> (\<forall>j < length (tracks (run_tracker calls init_tracker)). \<forall>t'.
        map_of (tracks (fst (update now dets (run_tracker calls init_tracker))))
               (fst (tracks (run_tracker calls init_tracker) ! j)) = Some t'
        \<longrightarrow> hits t' = hits (snd (tracks (run_tracker calls init_tracker) ! j))
                     + (if j \<in> matched_tracks now dets (run_tracker calls init_tracker) then 1 else 0)
          \<and> (j \<in> matched_tracks now dets (run_tracker calls init_tracker) \<longrightarrow>
               (\<exists>i < length dets.
                  calculate_iou (bbox (dets ! i))
                    (bbox (snd (tracks (run_tracker calls init_tracker) ! j))) > 3 / 10
                  \<and> bbox t' = bbox (dets ! i))))
   \<and> matched_tracks now dets (run_tracker calls init_tracker)
        \<subseteq> {..<length (tracks (run_tracker calls init_tracker))}
   \<and> (\<forall>p \<in> set (tracks (fst (update now dets (run_tracker calls init_tracker)))).
        hits (snd p) = calls_seen (fst p) (calls @ [(now, dets)]) init_tracker)
   \<and> (\<forall>t. t \<in> set (snd (update now dets (run_tracker calls init_tracker))) \<longleftrightarrow>
        (\<exists>k. (k, t) \<in> set (tracks (fst (update now dets (run_tracker calls init_tracker))))
             \<and> 3 \<le> calls_seen k (calls @ [(now, dets)]) init_tracker))"
proof -
  define s where "s = run_tracker calls init_tracker"
  define s' where "s' = fst (update now dets s)"
  define r where "r = snd (update now dets s)"
  have ok: "tracker_ok s" unfolding s_def by (rule run_tracker_ok [OF init_tracker_ok])
  obtain s1 where s1: "grows s s1" "s' = cleanup_tracks s1" "r = get_active_tracks (cleanup_tracks s1)"
    using update_step [OF ok, of now dets] unfolding s'_def r_def by auto
  have c1: "r = map snd (filter (\<lambda>p. hits (snd p) \<ge> 3) (tracks s'))"
    by (simp add: s1 get_active_tracks_def case_prod_unfold)
  have h: "\<forall>p \<in> set (tracks s').
           (case map_of (tracks s) (fst p) of
              None \<Rightarrow> hits (snd p) = 1
            | Some t \<Rightarrow> hits (snd p) = hits t \<or> hits (snd p) = hits t + 1)"
    using grows_cleanup(4) [OF ok s1(1)] s1(2) by simp
  have nr: "\<And>t. hits t = 1 \<Longrightarrow> t \<notin> set r"
    unfolding c1 by auto
  have c2: "\<forall>p \<in> set (tracks s').
        (case map_of (tracks s) (fst p) of
           None \<Rightarrow> hits (snd p) = 1 \<and> snd p \<notin> set r
         | Some t \<Rightarrow> hits (snd p) = hits t \<or> hits (snd p) = hits t + 1)"
  proof
    fix p assume "p \<in> set (tracks s')"
    with h have "case map_of (tracks s) (fst p) of
              None \<Rightarrow> hits (snd p) = 1
            | Some t \<Rightarrow> hits (snd p) = hits t \<or> hits (snd p) = hits t + 1" by blast
    then show "case map_of (tracks s) (fst p) of
           None \<Rightarrow> hits (snd p) = 1 \<and> snd p \<notin> set r
         | Some t \<Rightarrow> hits (snd p) = hits t \<or> hits (snd p) = hits t + 1"
      using nr by (auto split: option.splits)
  qed
  have c3: "\<forall>j < length (tracks s). \<forall>t'.
        map_of (tracks s') (fst (tracks s ! j)) = Some t'
        \<longrightarrow> hits t' = hits (snd (tracks s ! j)) + (if j \<in> matched_tracks now dets s then 1 else 0)
          \<and> (j \<in> matched_tracks now dets s \<longrightarrow>
               (\<exists>i < length dets.
                  calculate_iou (bbox (dets ! i)) (bbox (snd (tracks s ! j))) > 3 / 10
                  \<and> bbox t' = bbox (dets ! i)))"
    unfolding s'_def cost_accepted_iou [symmetric]
    using update_matched [OF ok, of _ now dets] by blast
  have c4: "matched_tracks now dets s \<subseteq> {..<length (tracks s)}"
    by (rule matched_tracks_bound [OF ok])
  have c5: "\<forall>p \<in> set (tracks s'). hits (snd p) = calls_seen (fst p) (calls @ [(now, dets)]) init_tracker"
    unfolding s'_def s_def using hits_count_calls by blast
  have c6: "\<forall>t. t \<in> set r \<longleftrightarrow>
        (\<exists>k. (k, t) \<in> set (tracks s') \<and> 3 \<le> calls_seen k (calls @ [(now, dets)]) init_tracker)"
  proof (intro allI iffI)
    fix t assume "t \<in> set r"
    then obtain p where p: "p \<in> set (tracks s')" "hits (snd p) \<ge> 3" "t = snd p"
      unfolding c1 by auto
    then have "(fst p, t) \<in> set (tracks s')" by simp
    moreover have "3 \<le> calls_seen (fst p) (calls @ [(now, dets)]) init_tracker"
      using c5 p(1,2) by simp
    ultimately show "\<exists>k. (k, t) \<in> set (tracks s') \<and> 3 \<le> calls_seen k (calls @ [(now, dets)]) init_tracker"
      by blast
  next
    fix t assume "\<exists>k. (k, t) \<in> set (tracks s') \<and> 3 \<le> calls_seen k (calls @ [(now, dets)]) init_tracker"
    then obtain k where k: "(k, t) \<in> set (tracks s')" "3 \<le> calls_seen k (calls @ [(now, dets)]) init_tracker"
      by blast
    have "hits t = calls_seen k (calls @ [(now, dets)]) init_tracker" using c5 k(1) by force
    then have "hits t \<ge> 3" using k(2) by simp
    then show "t \<in> set r" unfolding c1 using k(1) by force
  qed
  show ?thesis
    using c1 c2 c3 c4 c5 c6 unfolding r_def s'_def s_def by blast
qed

theorem update_returns_tracks_with_three_hits_witness:
  "(1, snd (hd (tracks (fst (update 0 [sample_detection]
       (run_tracker [(0, [sample_detection]), (0, [sample_detection])] init_tracker))))))
     \<in> set (tracks (fst (update 0 [sample_detection]
       (run_tracker [(0, [sample_detection]), (0, [sample_detection])] init_tracker))))
   \<and> map hits (snd (update 0 [sample_detection]
       (run_tracker [(0, [sample_detection]), (0, [sample_detection])] init_tracker))) = [3]
   \<and> map_of (tracks (run_tracker [(0, [sample_detection]), (0, [sample_detection])] init_tracker)) 1
       \<noteq> None"
proof -
  define s0 where "s0 = run_tracker [(0, [sample_detection]), (0, [sample_detection])] init_tracker"
  define u where "u = update 0 [sample_detection] s0"
  have mem: "(1, snd (hd (tracks (fst u)))) \<in> set (tracks (fst u))"
    unfolding u_def s0_def by code_simp
  have old: "map_of (tracks s0) 1 \<noteq> None"
    unfolding s0_def by code_simp
  have three: "map (\<lambda>p. hits (snd p)) (filter (\<lambda>p. hits (snd p) \<ge> 3) (tracks (fst u))) = [3]"
    unfolding u_def s0_def by code_simp
  have "snd u = map snd (filter (\<lambda>p. hits (snd p) \<ge> 3) (tracks (fst u)))"
    unfolding u_def s0_def
    by (rule conjunct1 [OF update_returns_tracks_with_three_hits [of 0 "[sample_detection]"
        "[(0, [sample_detection]), (0, [sample_detection])]"]])
  then have "map hits (snd u) = [3]" using three by (simp add: comp_def)
  with mem old show ?thesis unfolding u_def s0_def by blast
qed


section \<open>The activity classifier\<close>

lemma count_direction_changes_filter:
  "count_direction_changes ps is acc = acc + length (filter (direction_changed ps) is)"
  by (induction "is" arbitrary: acc) simp_all

lemma erratic_positions_iff:
  "erratic_positions ps \<longleftrightarrow>
     10 \<le> length ps \<and> 3 \<le> length (filter (direction_changed ps) [0..<length ps - 10])"
  by (simp add: erratic_positions_def count_direction_changes_filter window_size_def
      erratic_changes_def)


lemma erratic_positions_needs_13: "erratic_positions ps \<Longrightarrow> 13 \<le> length ps"
proof -
  assume e: "erratic_positions ps"
  have "length (filter (direction_changed ps) [0..<length ps - 10]) \<le> length ps - 10"
    using length_filter_le [of "direction_changed ps" "[0..<length ps - 10]"] by simp
  with e show ?thesis unfolding erratic_positions_iff by linarith
qed










lemma length_deque_append: "length (deque_append cap xs x) \<le> length xs + 1"
  by (simp add: deque_append_def Let_def)

lemma map_of_history_append:
  "map_of (history_append cap k x h) k =
     Some (deque_append cap (case map_of h k of None \<Rightarrow> [] | Some xs \<Rightarrow> xs) x)"
  by (simp add: history_append_def update_conv' split: option.splits)

lemma classify_single:
  assumes v: "linalg_norm (velocity t) = 1" and h: "history_len c (track_id t) < 12"
  shows "snd (classify [t] n c) = [(track_id t, PARADO)]"
    and "history_len (fst (classify [t] n c)) (track_id t) \<le> history_len c (track_id t) + 1"
proof -
  define c1 where "c1 = c\<lparr>position_history :=
      history_append (history_size c) (track_id t) (get_center (bbox t)) (position_history c)\<rparr>"
  define ps where "ps = deque_append (history_size c)
      (case map_of (position_history c) (track_id t) of None \<Rightarrow> [] | Some xs \<Rightarrow> xs)
      (get_center (bbox t))"
  have m: "map_of (position_history c1) (track_id t) = Some ps"
    by (simp add: c1_def ps_def map_of_history_append)
  have l: "length ps \<le> history_len c (track_id t) + 1"
  proof (cases "map_of (position_history c) (track_id t)")
    case None
    then show ?thesis
      using length_deque_append [of "history_size c" "[]" "get_center (bbox t)"]
      by (simp add: ps_def history_len_def)
  next
    case (Some xs)
    then show ?thesis
      using length_deque_append [of "history_size c" xs "get_center (bbox t)"]
      by (simp add: ps_def history_len_def)
  qed
  then have "length ps < 13" using h by simp
  then have ne: "\<not> erratic_positions ps" using erratic_positions_needs_13 [of ps] by auto
  have ind: "classify_individual_activity c1 t = PARADO"
    using ne m v by (simp add: classify_individual_activity_def is_erratic_behavior_def
        stopped_speed_def Let_def)
  have cl: "classify [t] n c =
     (c1\<lparr>activity_history :=
          history_append (history_size c1) (track_id t) PARADO (activity_history c1)\<rparr>,
      [(track_id t, PARADO)])"
    using ind by (simp add: classify_def c1_def [symmetric] Let_def)
  show "snd (classify [t] n c) = [(track_id t, PARADO)]" by (simp add: cl)
  show "history_len (fst (classify [t] n c)) (track_id t) \<le> history_len c (track_id t) + 1"
    using l m by (simp add: cl history_len_def)
qed

lemma classify_frames_slow:
  assumes "\<forall>t \<in> set ts. track_id t = tid \<and> linalg_norm (velocity t) = 1"
    and "history_len c tid + length ts \<le> 12"
  shows "classify_frames (frames_of_single_track ts) n c = replicate (length ts) [(tid, PARADO)]"
  using assms unfolding frames_of_single_track_def
proof (induction ts arbitrary: c n)
  case Nil
  then show ?case by simp
next
  case (Cons t ts)
  have id: "track_id t = tid" and v: "linalg_norm (velocity t) = 1" using Cons.prems(1) by simp_all
  have h: "history_len c (track_id t) < 12" using Cons.prems(2) id by simp
  obtain c' acts where cl: "classify [t] n c = (c', acts)" by (cases "classify [t] n c")
  have a: "acts = [(tid, PARADO)]" using classify_single(1) [OF v h, of n] cl id by simp
  have "history_len c' tid \<le> history_len c tid + 1"
    using classify_single(2) [OF v h, of n] cl id by simp
  then have h': "history_len c' tid + length ts \<le> 12" using Cons.prems(2) by simp
  have rest: "\<forall>t \<in> set ts. track_id t = tid \<and> linalg_norm (velocity t) = 1"
    using Cons.prems(1) by simp
  show ?case using Cons.IH [OF rest h', of "n + 1"] cl a by simp
qed

lemma slow_never_walking:
  "linalg_norm (velocity t) = 1 \<Longrightarrow>
   classify_individual_activity c t =
     (if is_erratic_behavior c (track_id t) then COMPORTAMENTO_ERRATICO else PARADO)"
  by (simp add: classify_individual_activity_def stopped_speed_def Let_def)

lemma walking_frames_ok:
  "\<forall>t \<in> set walking_frames. track_id t = 1 \<and> linalg_norm (velocity t) = 1"
  by (simp add: walking_frames_def walking_track_def linalg_norm_def)

lemma walking_frames_length: "length walking_frames = 10"
  by (simp add: walking_frames_def)

lemma walking_frames_fresh: "history_len init_classifier 1 + length walking_frames \<le> 12"
  by (simp add: history_len_def init_classifier_def walking_frames_def)

text \<open>
  Claim C2, as the code has it. The claim reads: a track whose velocity is held at
  magnitude 1.0 px/frame for 10 consecutive frames is classified WALKING
  (CAMINHANDO) on all 10 frames. The code compares the speed with
  \<open>stopped_speed = 2.0\<close> first (line 94), so such a track is PARADO: here one person,
  alone in the frame, moving one pixel per frame, on a new classifier.
\<close>

theorem slow_track_counterexample:
  "classify_frames (frames_of_single_track walking_frames) 0 init_classifier
     = replicate 10 [(1, PARADO)]
   \<and> classify_frames (frames_of_single_track walking_frames) 0 init_classifier
     \<noteq> replicate 10 [(1, CAMINHANDO)]"
proof -
  have "classify_frames (frames_of_single_track walking_frames) 0 init_classifier
     = replicate 10 [(1, PARADO)]"
    using classify_frames_slow [OF walking_frames_ok walking_frames_fresh, of 0]
    unfolding walking_frames_length .
  then show ?thesis by (simp add: numeral_eq_Suc)
qed

text \<open>
  Claim C2, amended: for any track whose velocity is held at magnitude 1.0 px/frame
  for 10 consecutive frames, alone in its frames and new to the classifier, the
  classifier outputs STATIONARY (PARADO) on all 10 frames; and in no classifier
  state does the individual classification of such a track give WALKING: it gives
  ERRATIC when the erratic check fires and STATIONARY otherwise.
\<close>

theorem slow_track_is_stationary:
  assumes "\<forall>t \<in> set ts. track_id t = tid \<and> linalg_norm (velocity t) = 1"
    and "length ts = 10"
    and "map_of (position_history c) tid = None"
  shows "classify_frames (frames_of_single_track ts) n c = replicate 10 [(tid, PARADO)]
    \<and> (\<forall>t \<in> set ts. \<forall>c'. classify_individual_activity c' t \<noteq> CAMINHANDO
          \<and> classify_individual_activity c' t =
              (if is_erratic_behavior c' (track_id t) then COMPORTAMENTO_ERRATICO else PARADO))"
proof -
  have h: "history_len c tid + length ts \<le> 12"
    using assms(2,3) by (simp add: history_len_def)
  have a: "classify_frames (frames_of_single_track ts) n c = replicate 10 [(tid, PARADO)]"
    using classify_frames_slow [OF assms(1) h, of n] assms(2) by simp
  have b: "\<forall>t \<in> set ts. \<forall>c'. classify_individual_activity c' t \<noteq> CAMINHANDO
          \<and> classify_individual_activity c' t =
              (if is_erratic_behavior c' (track_id t) then COMPORTAMENTO_ERRATICO else PARADO)"
    using assms(1) by (simp add: slow_never_walking)
  from a b show ?thesis by blast
qed

theorem slow_track_is_stationary_witness:
  "map track_id walking_frames = replicate 10 1
   \<and> map linalg_norm (map velocity walking_frames) = replicate 10 1
   \<and> length walking_frames = 10
   \<and> map_of (position_history init_classifier) 1 = None
   \<and> classify_frames (frames_of_single_track walking_frames) 5 init_classifier
       = replicate 10 [(1, PARADO)]"
proof -
  have f: "map_of (position_history init_classifier) (1::int) = None"
    by (simp add: init_classifier_def)
  have i: "map track_id walking_frames = replicate 10 1"
    by (simp add: walking_frames_def walking_track_def numeral_eq_Suc)
  have v: "map linalg_norm (map velocity walking_frames) = replicate 10 1"
    by (simp add: walking_frames_def walking_track_def linalg_norm_def numeral_eq_Suc)
  show ?thesis
    using slow_track_is_stationary [OF walking_frames_ok walking_frames_length f, of 5]
      i v walking_frames_length f
    by blast
qed















section \<open>The anomaly detector\<close>









lemma detect_states [simp]:
  "track_states (fst (detect now trks acts fn ts d)) = track_states (update_track_states trks ts d)"
  by (simp add: detect_def Let_def)


lemma linalg_norm_zero [simp]: "linalg_norm (vec_sub p p) = 0"
  by (simp add: linalg_norm_def vec_sub_def)


text \<open>
  Claim C1, evaluated on the code. The claim reads: PARADA\_PROLONGADA is emitted
  exactly when the track is PARADO, \<^verbatim>\<open>stopped_since\<close> is set and more than 5.0
  seconds have elapsed since then; a track stopped for less than 5 seconds does not
  fire the rule. \<^verbatim>\<open>_update_track_states\<close> stores the video timestamp of the frame
  in \<^verbatim>\<open>stopped_since\<close> (line 313), and \<^verbatim>\<open>_check_prolonged_stop\<close> subtracts
  it from the wall clock \<^verbatim>\<open>time.time()\<close> (line 179). On the first frame that
  reports a still person (frame 2 at 30 fps, video time 1/15 s, wall clock
  1700000000 s) the timer is set in this very call and the rule fires at once.
\<close>

theorem prolonged_stop_fires_at_once:
  "snd (detect 1700000000 [still_person] [(1, PARADO)] 2 (1 / 15) (init_anomaly_detector 30))
     = [create_anomaly PARADA_PROLONGADA still_person 2 (1 / 15)]
   \<and> map (\<lambda>p. (fst p, stopped_since (snd p)))
         (track_states (fst (detect 1700000000 [still_person] [(1, PARADO)] 2 (1 / 15)
            (init_anomaly_detector 30))))
     = [(1, Some (1 / 15))]"
  by (simp add: detect_def Let_def update_track_states_def still_person_def person_def
      init_anomaly_detector_def refresh_state_def history_append_def deque_append_def
      track_anomalies_def check_sudden_movement_def check_high_speed_def check_prolonged_stop_def
      check_reverse_movement_def check_abandoned_object_def check_crowding_def
      linalg_norm_def vec_sub_def get_center_def high_speed_def stopped_duration_def
      return_threshold_def crowding_count_def)


lemma involved_lists_append:
  "involved_lists (xs @ ys) = involved_lists xs @ involved_lists ys"
  by (induction xs rule: involved_lists.induct) simp_all

lemma involved_lists_track_anomalies [simp]:
  "involved_lists (track_anomalies now d acts fn ts trk) = []"
  by (simp add: track_anomalies_def create_anomaly_def)

lemma involved_lists_concat_track_anomalies [simp]:
  "involved_lists (concat (map (track_anomalies now d acts fn ts) trks)) = []"
  by (induction trks) (simp_all add: involved_lists_append)

lemma involved_lists_detect:
  "involved_lists (snd (detect now trks acts fn ts d)) = involved_lists (check_crowding trks fn ts)"
  by (simp add: detect_def Let_def involved_lists_append)

lemma gather_nearby_ids:
  assumes d: "distinct (map track_id people)" and i: "i < length people" and p: "people ! i = person1"
    and c: "track_id person1 \<notin> checked"
  shows "distinct (map track_id (gather_nearby i person1 checked people))"
    and "set (map track_id (gather_nearby i person1 checked people)) \<inter> checked = {}"
proof -
  define others where "others = map snd
       (filter (\<lambda>(j, person2).
                  \<not> (i = j \<or> track_id person2 \<in> checked) \<and>
                  euclidean (get_center (bbox person1)) (get_center (bbox person2))
                    < crowding_distance)
               (enumerate 0 people))"
  have g: "gather_nearby i person1 checked people = person1 # others"
    by (simp add: gather_nearby_def others_def)
  have sub: "\<And>q. q \<in> set others \<Longrightarrow> \<exists>j < length people. j \<noteq> i \<and> people ! j = q \<and> track_id q \<notin> checked"
    unfolding others_def by (auto simp: in_set_enumerate_eq)
  have dm: "distinct (map track_id others)"
  proof -
    have "distinct (map (track_id \<circ> snd) (enumerate 0 people))"
      using d by (simp add: map_map [symmetric] del: map_map)
    then have "distinct (map (track_id \<circ> snd) (filter (\<lambda>(j, person2).
                  \<not> (i = j \<or> track_id person2 \<in> checked) \<and>
                  euclidean (get_center (bbox person1)) (get_center (bbox person2))
                    < crowding_distance) (enumerate 0 people)))"
      by (rule distinct_map_filter)
    then show ?thesis by (simp add: others_def)
  qed
  have ni: "track_id person1 \<notin> set (map track_id others)"
  proof
    assume "track_id person1 \<in> set (map track_id others)"
    then obtain q where q: "q \<in> set others" "track_id q = track_id person1" by auto
    then obtain j where j: "j < length people" "j \<noteq> i" "people ! j = q" using sub by blast
    have "map track_id people ! j = map track_id people ! i" using j i p q by simp
    moreover have "j < length (map track_id people)" "i < length (map track_id people)"
      using i j(1) by simp_all
    ultimately have "j = i" using d nth_eq_iff_index_eq by blast
    with j(2) show False by simp
  qed
  show "distinct (map track_id (gather_nearby i person1 checked people))"
    using dm ni by (simp add: g)
  show "set (map track_id (gather_nearby i person1 checked people)) \<inter> checked = {}"
    using c sub by (auto simp: g)
qed

lemma crowding_loop_distinct:
  assumes d: "distinct (map track_id people)"
    and r: "\<forall>(i, p) \<in> set rest. i < length people \<and> people ! i = p"
    and s: "set (concat (involved_lists found)) \<subseteq> checked"
    and f: "distinct (concat (involved_lists found))"
  shows "distinct (concat (involved_lists (crowding_loop people fn ts rest checked found)))"
  using r s f
proof (induction rest arbitrary: checked found)
  case Nil
  then show ?case by simp
next
  case (Cons x rest)
  obtain i person1 where x: "x = (i, person1)" by (cases x) auto
  have r': "\<forall>(i, p) \<in> set rest. i < length people \<and> people ! i = p" using Cons.prems(1) by simp
  have ip: "i < length people" "people ! i = person1" using Cons.prems(1) x by simp_all
  define nearby where "nearby = gather_nearby i person1 checked people"
  show ?case
  proof (cases "track_id person1 \<in> checked \<or> \<not> length nearby \<ge> crowding_count")
    case True
    then have "crowding_loop people fn ts (x # rest) checked found
        = crowding_loop people fn ts rest checked found"
      by (auto simp: x nearby_def Let_def)
    then show ?thesis using Cons.IH [OF r' Cons.prems(2,3)] by simp
  next
    case False
    define rec where "rec = CrowdAnomaly AGLOMERACAO (severity_of AGLOMERACAO) fn
                              ts (mean_point (map (\<lambda>p. get_center (bbox p)) nearby))
                              (map track_id nearby) (length nearby)"
    have step: "crowding_loop people fn ts (x # rest) checked found
        = crowding_loop people fn ts rest (checked \<union> set (map track_id nearby)) (found @ [rec])"
      using False by (simp add: x nearby_def [symmetric] Let_def rec_def)
    have nc: "track_id person1 \<notin> checked" using False by simp
    have g: "distinct (map track_id nearby)" "set (map track_id nearby) \<inter> checked = {}"
      using gather_nearby_ids [OF d ip nc] by (simp_all add: nearby_def)
    have il: "concat (involved_lists (found @ [rec])) = concat (involved_lists found) @ map track_id nearby"
      by (simp add: involved_lists_append rec_def)
    have s': "set (concat (involved_lists (found @ [rec]))) \<subseteq> checked \<union> set (map track_id nearby)"
      unfolding il using Cons.prems(2) by auto
    have f': "distinct (concat (involved_lists (found @ [rec])))"
      unfolding il using Cons.prems(2,3) g by auto
    show ?thesis unfolding step by (rule Cons.IH [OF r' s' f'])
  qed
qed

lemma check_crowding_distinct:
  assumes "distinct (map track_id trks)"
  shows "distinct (concat (involved_lists (check_crowding trks fn ts)))"
proof -
  define people where "people = filter (\<lambda>t. class_id t = 0) trks"
  have d: "distinct (map track_id people)"
    unfolding people_def using assms by (rule distinct_map_filter)
  have r: "\<forall>(i, p) \<in> set (enumerate 0 people). i < length people \<and> people ! i = p"
    by (auto simp: in_set_enumerate_eq)
  have "distinct (concat (involved_lists (crowding_loop people fn ts (enumerate 0 people) {} [])))"
    by (rule crowding_loop_distinct [OF d r]) simp_all
  then show ?thesis
    by (simp add: check_crowding_def people_def [symmetric] Let_def)
qed

text \<open>
  Claim C10: in every call of \<^verbatim>\<open>detect\<close> on tracks of distinct ids, the
  \<^verbatim>\<open>involved_tracks\<close> lists of the AGLOMERACAO records, put end to end, have no
  repeated id: no id is in two records, and no record lists an id twice.
\<close>

theorem crowding_groups_disjoint:
  assumes "distinct (map track_id trks)"
  shows "distinct (concat (involved_lists (snd (detect now trks acts fn ts d))))"
  unfolding involved_lists_detect by (rule check_crowding_distinct [OF assms])


lemma euclidean_commute: "euclidean u v = euclidean v u"
  by (simp add: euclidean_def linalg_norm_def vec_sub_def power2_commute)

lemma crowding_four:
  assumes c: "dist_c a b < 80" "dist_c a c < 80" "dist_c b c < 80"
    and f: "dist_c x a \<ge> 80" "dist_c x b \<ge> 80" "dist_c x c \<ge> 80"
  shows "crowding_loop [x, a, b, c] fn ts (enumerate 0 [x, a, b, c]) {} [] =
           [CrowdAnomaly AGLOMERACAO MEDIA fn ts
              (mean_point (map (\<lambda>p. get_center (bbox p)) [a, b, c])) (map track_id [a, b, c]) 3]"
    and "crowding_loop [a, x, b, c] fn ts (enumerate 0 [a, x, b, c]) {} [] =
           [CrowdAnomaly AGLOMERACAO MEDIA fn ts
              (mean_point (map (\<lambda>p. get_center (bbox p)) [a, b, c])) (map track_id [a, b, c]) 3]"
    and "crowding_loop [a, b, x, c] fn ts (enumerate 0 [a, b, x, c]) {} [] =
           [CrowdAnomaly AGLOMERACAO MEDIA fn ts
              (mean_point (map (\<lambda>p. get_center (bbox p)) [a, b, c])) (map track_id [a, b, c]) 3]"
    and "crowding_loop [a, b, c, x] fn ts (enumerate 0 [a, b, c, x]) {} [] =
           [CrowdAnomaly AGLOMERACAO MEDIA fn ts
              (mean_point (map (\<lambda>p. get_center (bbox p)) [a, b, c])) (map track_id [a, b, c]) 3]"
proof -
  have c': "dist_c b a < 80" "dist_c c a < 80" "dist_c c b < 80"
    using c by (simp_all add: dist_c_def euclidean_commute)
  have f': "dist_c a x \<ge> 80" "dist_c b x \<ge> 80" "dist_c c x \<ge> 80"
    using f by (simp_all add: dist_c_def euclidean_commute)
  note d = c c' f f'
  show "crowding_loop [x, a, b, c] fn ts (enumerate 0 [x, a, b, c]) {} [] =
           [CrowdAnomaly AGLOMERACAO MEDIA fn ts
              (mean_point (map (\<lambda>p. get_center (bbox p)) [a, b, c])) (map track_id [a, b, c]) 3]"
    using d by (simp add: gather_nearby_def crowding_distance_def crowding_count_def Let_def
        dist_c_def not_less [symmetric])
  show "crowding_loop [a, x, b, c] fn ts (enumerate 0 [a, x, b, c]) {} [] =
           [CrowdAnomaly AGLOMERACAO MEDIA fn ts
              (mean_point (map (\<lambda>p. get_center (bbox p)) [a, b, c])) (map track_id [a, b, c]) 3]"
    using d by (simp add: gather_nearby_def crowding_distance_def crowding_count_def Let_def
        dist_c_def not_less [symmetric])
  show "crowding_loop [a, b, x, c] fn ts (enumerate 0 [a, b, x, c]) {} [] =
           [CrowdAnomaly AGLOMERACAO MEDIA fn ts
              (mean_point (map (\<lambda>p. get_center (bbox p)) [a, b, c])) (map track_id [a, b, c]) 3]"
    using d by (simp add: gather_nearby_def crowding_distance_def crowding_count_def Let_def
        dist_c_def not_less [symmetric])
  show "crowding_loop [a, b, c, x] fn ts (enumerate 0 [a, b, c, x]) {} [] =
           [CrowdAnomaly AGLOMERACAO MEDIA fn ts
              (mean_point (map (\<lambda>p. get_center (bbox p)) [a, b, c])) (map track_id [a, b, c]) 3]"
    using d by (simp add: gather_nearby_def crowding_distance_def crowding_count_def Let_def
        dist_c_def not_less [symmetric])
qed


lemma linalg_norm_horizontal: "linalg_norm (a, 0) = \<bar>a\<bar>"
  by (simp add: linalg_norm_def)

lemma get_center_person: "get_center (bbox (person k x)) = (x + 5, 5)"
  by (simp add: get_center_def person_def)

lemma dist_c_person: "dist_c (person j x) (person k y) = \<bar>x - y\<bar>"
  by (simp add: dist_c_def euclidean_def vec_sub_def get_center_person linalg_norm_horizontal)

text \<open>
  Claim C4: when the persons among the tracks of a call are three persons a, b, c
  whose centres are pairwise less than 80 px apart and one more person x at 80 px
  or more (200 px, say) from each of them, in any order, the call emits exactly one
  AGLOMERACAO record; it lists a, b and c and not x. On tracks of distinct ids no
  id is in two records: a member of an emitted group is marked as checked and
  neither seeds nor joins another group of the frame.
\<close>

theorem crowding_three_close_one_far:
  assumes "filter (\<lambda>t. class_id t = 0) trks \<in> {[x, a, b, c], [a, x, b, c], [a, b, x, c], [a, b, c, x]}"
    and "dist_c a b < 80" "dist_c a c < 80" "dist_c b c < 80"
    and "dist_c x a \<ge> 80" "dist_c x b \<ge> 80" "dist_c x c \<ge> 80"
  shows "check_crowding trks fn ts =
           [CrowdAnomaly AGLOMERACAO MEDIA fn ts
              (mean_point [get_center (bbox a), get_center (bbox b), get_center (bbox c)])
              [track_id a, track_id b, track_id c] 3]
     \<and> involved_lists (snd (detect now trks acts fn ts d)) = [[track_id a, track_id b, track_id c]]
     \<and> (distinct (map track_id trks) \<longrightarrow>
          distinct (concat (involved_lists (snd (detect now trks acts fn ts d)))))"
proof -
  define people where "people = filter (\<lambda>t. class_id t = 0) trks"
  have l: "length people = 4" using assms(1) by (auto simp: people_def)
  have cl: "crowding_loop people fn ts (enumerate 0 people) {} [] =
           [CrowdAnomaly AGLOMERACAO MEDIA fn ts
              (mean_point (map (\<lambda>p. get_center (bbox p)) [a, b, c])) (map track_id [a, b, c]) 3]"
    using assms(1) crowding_four [OF assms(2-7), of fn ts]
    unfolding people_def [symmetric] by auto
  have cc: "check_crowding trks fn ts =
           [CrowdAnomaly AGLOMERACAO MEDIA fn ts
              (mean_point [get_center (bbox a), get_center (bbox b), get_center (bbox c)])
              [track_id a, track_id b, track_id c] 3]"
    using cl l by (simp add: check_crowding_def people_def [symmetric] Let_def crowding_count_def)
  have il: "involved_lists (snd (detect now trks acts fn ts d)) = [[track_id a, track_id b, track_id c]]"
    by (simp add: involved_lists_detect cc)
  have di: "distinct (map track_id trks) \<longrightarrow>
          distinct (concat (involved_lists (snd (detect now trks acts fn ts d))))"
    unfolding involved_lists_detect using check_crowding_distinct by blast
  from cc il di show ?thesis by blast
qed

lemma crowd_scene_people:
  "filter (\<lambda>t. class_id t = 0) crowd_scene = [person 1 0, person 2 0, person 4 200, person 3 0]"
  by (simp add: crowd_scene_def person_def)

lemma crowd_scene_distinct: "distinct (map track_id crowd_scene)"
  by (simp add: crowd_scene_def person_def)

theorem crowding_three_close_one_far_witness:
  "filter (\<lambda>t. class_id t = 0) crowd_scene = [person 1 0, person 2 0, person 4 200, person 3 0]
   \<and> dist_c (person 1 0) (person 2 0) < 80 \<and> dist_c (person 4 200) (person 1 0) \<ge> 80
   \<and> involved_lists (snd (detect 0 crowd_scene [] 0 0 (init_anomaly_detector 30))) = [[1, 2, 3]]"
proof -
  have m: "filter (\<lambda>t. class_id t = 0) crowd_scene \<in>
      {[person 4 200, person 1 0, person 2 0, person 3 0],
       [person 1 0, person 4 200, person 2 0, person 3 0],
       [person 1 0, person 2 0, person 4 200, person 3 0],
       [person 1 0, person 2 0, person 3 0, person 4 200]}"
    by (simp add: crowd_scene_people)
  have c: "dist_c (person 1 0) (person 2 0) < 80" "dist_c (person 1 0) (person 3 0) < 80"
    "dist_c (person 2 0) (person 3 0) < 80"
    by (simp_all add: dist_c_person)
  have f: "dist_c (person 4 200) (person 1 0) \<ge> 80" "dist_c (person 4 200) (person 2 0) \<ge> 80"
    "dist_c (person 4 200) (person 3 0) \<ge> 80"
    by (simp_all add: dist_c_person)
  have "involved_lists (snd (detect 0 crowd_scene [] 0 0 (init_anomaly_detector 30)))
      = [[track_id (person 1 0), track_id (person 2 0), track_id (person 3 0)]]"
    using crowding_three_close_one_far [OF m c f, of 0 0 0 "[]" "init_anomaly_detector 30"]
    by blast
  then have "involved_lists (snd (detect 0 crowd_scene [] 0 0 (init_anomaly_detector 30))) = [[1, 2, 3]]"
    by (simp add: person_def)
  with crowd_scene_people c(1) f(1) show ?thesis by blast
qed

theorem crowding_groups_disjoint_witness:
  "distinct (map track_id crowd_scene)
   \<and> distinct (concat (involved_lists (snd (detect 0 crowd_scene [] 0 0 (init_anomaly_detector 30)))))"
  using crowding_groups_disjoint [OF crowd_scene_distinct, of 0 "[]" 0 0 "init_anomaly_detector 30"]
    crowd_scene_distinct
  by blast




section \<open>The tracks handed to the classifier and to the anomaly detector\<close>

text \<open>
  The lists that \<^verbatim>\<open>update\<close> returns, which are the inputs of \<^verbatim>\<open>classify\<close> and of
  \<^verbatim>\<open>detect\<close>, hold tracks of pairwise distinct ids: the hypothesis of the
  statements on \<^verbatim>\<open>detect\<close> above holds of every list that the tracker produces.
\<close>

lemma set_map_entry:
  "p \<in> set (AList.map_entry k f al) \<Longrightarrow>
   p \<in> set al \<or> (\<exists>v. (k, v) \<in> set al \<and> p = (k, f v))"
  by (induction al) (auto split: if_splits)

lemma set_alist_update:
  "p \<in> set (AList.update k v al) \<Longrightarrow> p \<in> set al \<or> p = (k, v)"
  by (induction al) (auto split: if_splits)

lemma update_one_track_id [simp]: "track_id (update_one now cap det t) = track_id t"
  by (simp add: update_one_def Let_def)

lemma ids_match_update_track: "ids_match s \<Longrightarrow> ids_match (update_track now k det s)"
  unfolding ids_match_def update_track_def
  using set_map_entry [of _ k "update_one now (max_history s) det" "tracks s"]
  by fastforce

lemma ids_match_create_track: "ids_match s \<Longrightarrow> ids_match (fst (create_track now det s))"
  unfolding ids_match_def create_track_def Let_def
  using set_alist_update [of _ "next_id s" "new_track now (max_history s) (next_id s) det" "tracks s"]
  by fastforce

lemma ids_match_match_loop:
  "ids_match s \<Longrightarrow> match_loop now dets track_ids costs (s, mt, md) = (s1, mt1, md1) \<Longrightarrow> ids_match s1"
proof (induction costs arbitrary: s mt md)
  case Nil
  then show ?case by simp
next
  case (Cons c costs)
  obtain cost di tj where c: "c = (cost, di, tj)" by (cases c) auto
  show ?case
  proof (cases "di \<in> md \<or> tj \<in> mt \<or> \<not> cost < 0.7")
    case True
    then have "match_loop now dets track_ids costs (s, mt, md) = (s1, mt1, md1)"
      using Cons.prems(2) c by (auto split: if_splits)
    then show ?thesis using Cons.IH [OF Cons.prems(1)] by blast
  next
    case False
    then have "match_loop now dets track_ids costs
        (update_track now (track_ids ! tj) (dets ! di) s, insert tj mt, insert di md) = (s1, mt1, md1)"
      using Cons.prems(2) c by simp
    then show ?thesis using Cons.IH [OF ids_match_update_track [OF Cons.prems(1)]] by blast
  qed
qed

lemma ids_match_create_unmatched:
  "ids_match s \<Longrightarrow> ids_match (create_unmatched now md xs s)"
  by (induction now md xs s rule: create_unmatched.induct) (simp_all add: ids_match_create_track)

lemma ids_match_create_all: "ids_match s \<Longrightarrow> ids_match (create_all now dets s)"
  by (induction now dets s rule: create_all.induct) (simp_all add: ids_match_create_track)

lemma ids_match_age_entry:
  "ids_match s \<Longrightarrow>
   ids_match (s\<lparr>tracks := AList.map_entry tid (\<lambda>trk. trk\<lparr>age := age trk + 1\<rparr>) (tracks s)\<rparr>)"
  unfolding ids_match_def
  using set_map_entry [of _ tid "\<lambda>trk. trk\<lparr>age := age trk + 1\<rparr>" "tracks s"]
  by fastforce

lemma ids_match_age_unmatched:
  "ids_match s \<Longrightarrow> ids_match (age_unmatched mt xs s)"
  by (induction mt xs s rule: age_unmatched.induct) (simp_all add: ids_match_age_entry)

lemma ids_match_associate:
  assumes "ids_match s"
  shows "ids_match (associate_detections now dets s)"
proof (cases "dets = []")
  case True
  then show ?thesis using assms by (auto simp: associate_detections_def ids_match_def)
next
  case False
  obtain s1 mt md where ml:
    "match_loop now dets (map fst (tracks s)) (sort (flat_costs dets (tracks s))) (s, {}, {}) = (s1, mt, md)"
    by (metis prod_cases3)
  have "ids_match s1" by (rule ids_match_match_loop [OF assms ml])
  then show ?thesis
    using False ml
    by (simp add: associate_detections_def Let_def ids_match_age_unmatched ids_match_create_unmatched)
qed

lemma ids_match_update: "ids_match s \<Longrightarrow> ids_match (fst (update now dets s))"
proof -
  assume a: "ids_match s"
  have c: "\<And>s'. ids_match s' \<Longrightarrow> ids_match (cleanup_tracks s')"
    by (simp add: ids_match_def cleanup_tracks_def)
  show ?thesis
    using a by (simp add: update_def Let_def c ids_match_create_all ids_match_associate)
qed

lemma ids_match_run: "ids_match s \<Longrightarrow> ids_match (run_tracker calls s)"
  by (induction calls s rule: run_tracker.induct) (simp_all add: ids_match_update)

lemma ids_match_init: "ids_match init_tracker"
  by (simp add: ids_match_def init_tracker_def)

lemma tracker_output_distinct_ids:
  "distinct (map track_id (snd (update now dets (run_tracker calls init_tracker))))"
proof -
  define s where "s = run_tracker calls init_tracker"
  define s' where "s' = fst (update now dets s)"
  have ok: "tracker_ok s'"
    unfolding s'_def s_def by (rule update_ok [OF run_tracker_ok [OF init_tracker_ok]])
  have im: "ids_match s'"
    unfolding s'_def s_def by (rule ids_match_update [OF ids_match_run [OF ids_match_init]])
  have r: "snd (update now dets s) = get_active_tracks s'"
    by (simp add: update_def Let_def s'_def)
  have "map track_id (get_active_tracks s') =
        map fst (filter (\<lambda>(tid, trk). hits trk \<ge> 3) (tracks s'))"
    using im by (auto simp: get_active_tracks_def ids_match_def)
  moreover have "distinct (map fst (filter (\<lambda>(tid, trk). hits trk \<ge> 3) (tracks s')))"
    using ok by (simp add: tracker_ok_def distinct_map_filter)
  ultimately show ?thesis unfolding s_def [symmetric] r by simp
qed


end
